theory Spec2Isabelle
  imports
    Main
    "HOL-Library.Word"
    "HOL-Library.Char_ord"
    "HOL-Library.List_Lexorder"
    "HOL-Library.Monad_Syntax"
begin

section \<open>Data model of the bubble finder (tools/kissnp2/src/Bubble.cpp)\<close>

text \<open>
  The graph library, the traversal primitive, the low-complexity filter and the class
  declarations (Bubble, Kissnp2) are used by Bubble.cpp but their sources are not part of
  the verified file. The functions of Bubble.cpp are embedded as they are written; what
  they call from outside is a parameter: a record of the graph's queries, a record of the
  traversal's operations over an abstract traversal state, and the filter as a function.
\<close>

datatype Strand = STRAND_FORWARD | STRAND_REVCOMP

datatype Direction = DIR_OUTCOMING | DIR_INCOMING

datatype TraversalKind = NONE | UNITIG | CONTIG

text \<open>
  Modelled from the spec: the nucleotide type of the graph library and its tables are
  not in the sources. A nucleotide is one of four letters, encoded 0..3; the tables
  \<open>ascii\<close>, \<open>bin2NT\<close> and the complement \<open>reverse\<close> follow the library's order A, C, T, G.
\<close>

datatype Nucleotide = NUCL_A | NUCL_C | NUCL_T | NUCL_G

fun nt_int :: "Nucleotide \<Rightarrow> int" where
  "nt_int NUCL_A = 0"
| "nt_int NUCL_C = 1"
| "nt_int NUCL_T = 2"
| "nt_int NUCL_G = 3"

fun ascii :: "Nucleotide \<Rightarrow> char" where
  "ascii NUCL_A = CHR ''A''"
| "ascii NUCL_C = CHR ''C''"
| "ascii NUCL_T = CHR ''T''"
| "ascii NUCL_G = CHR ''G''"

fun reverse_nt :: "Nucleotide \<Rightarrow> Nucleotide" where
  "reverse_nt NUCL_A = NUCL_T"
| "reverse_nt NUCL_C = NUCL_G"
| "reverse_nt NUCL_T = NUCL_A"
| "reverse_nt NUCL_G = NUCL_C"

definition bin2NT :: "char list" where
  "bin2NT = ''ACTG''"

text \<open>C's \<open>tolower\<close> in the C locale: the 26 capitals move by 32, every other byte stays.\<close>

definition tolower :: "char \<Rightarrow> char" where
  "tolower c =
     (if (65::nat) \<le> of_char c \<and> of_char c \<le> (90::nat)
      then char_of (of_char c + (32::nat)) else c)"

text \<open>
  A node carries the integer value of its canonical k-mer and a strand. The sentinel
  \<open>Node(~0)\<close> that \<open>start\<close> passes as the previous node has all bits of the value set.
\<close>

record Node =
  kmer :: "64 word"
  strand :: Strand

definition Node_sentinel :: Node where
  "Node_sentinel = \<lparr>kmer = - 1, strand = STRAND_FORWARD\<rparr>"

record Edge =
  edge_from :: Node
  edge_to :: Node
  edge_nt :: Nucleotide

text \<open>
  The queries of the graph that Bubble.cpp uses. \<open>successors_pair\<close> is
  \<open>successors<Node>(n1, n2)\<close>, \<open>successors_edge_pair\<close> is \<open>successors<Edge>(n1, n2)\<close>.
\<close>

record Graph =
  getKmerSize :: nat
  reverse :: "Node \<Rightarrow> Node"
  toString :: "Node \<Rightarrow> string"
  mutate :: "Node \<Rightarrow> nat \<Rightarrow> int \<Rightarrow> Node list"
  successors :: "Node \<Rightarrow> Node list"
  predecessors :: "Node \<Rightarrow> Node list"
  successors_pair :: "Node \<Rightarrow> Node \<Rightarrow> (Node \<times> Node) list"
  successors_edge_pair :: "Node \<Rightarrow> Node \<Rightarrow> (Edge \<times> Edge) list"
  indegree :: "Node \<Rightarrow> nat"
  outdegree :: "Node \<Rightarrow> nat"
  getNT :: "Node \<Rightarrow> nat \<Rightarrow> Nucleotide"

text \<open>
  The traversal object with its terminator, over a state \<open>'t\<close>. \<open>traverse\<close> receives the
  path it fills by reference, so the model passes the old path and gets the new one.
\<close>

record 't Traversal =
  traverse :: "'t \<Rightarrow> Node \<Rightarrow> Direction \<Rightarrow> Nucleotide list \<Rightarrow> Nucleotide list \<times> 't"
  getBubbles :: "'t \<Rightarrow> (nat \<times> nat) list"
  reset :: "'t \<Rightarrow> 't"

record Sequence =
  comment :: string
  data :: "char list"

text \<open>The arrays \<open>begin[2]\<close> and \<open>end[2]\<close> are pairs; \<open>sel2\<close> reads one by its index.\<close>

record Bubble =
  begin_b :: "Node \<times> Node"
  end_b :: "Node \<times> Node"
  extensionLeft :: "Nucleotide list"
  extensionRight :: "Nucleotide list"
  closureLeft :: int
  closureRight :: int
  divergenceLeft :: nat
  divergenceRight :: nat
  where_to_extend :: int
  score :: int
  index :: "64 word"
  seq1 :: Sequence
  seq2 :: Sequence

text \<open>
  The tool object: the configuration, the shared counters (unsigned 64-bit, so \<open>++\<close>
  wraps) and the output bank, which keeps the sequences in the order of insertion.
\<close>

record Kissnp2 =
  authorised_branching :: int
  traversalKind :: TraversalKind
  threshold :: int
  low :: bool
  nb_bubbles :: "64 word"
  nb_bubbles_high :: "64 word"
  nb_bubbles_low :: "64 word"
  nb_where_to_extend :: "64 word list"
  outputBank :: "Sequence list"

text \<open>The mutable members of a BubbleFinder: the tool, the bubble and the traversal.\<close>

record 't BubbleFinder =
  tool :: Kissnp2
  bubble :: Bubble
  travState :: 't

definition sizeKmer :: "Graph \<Rightarrow> nat" where
  "sizeKmer g = getKmerSize g"

definition BAD :: int where
  "BAD = - 1"

text \<open>
  Reading element \<open>i\<close> of a vector or a string: outside the range the C++ read is
  undefined, which the model makes the error value \<open>None\<close>.
\<close>

definition at :: "'a list \<Rightarrow> nat \<Rightarrow> 'a option" where
  "at xs i = (if i < length xs then Some (xs ! i) else None)"

definition sel2 :: "'a \<times> 'a \<Rightarrow> nat \<Rightarrow> 'a option" where
  "sel2 p i = (if i = 0 then Some (fst p) else if i = 1 then Some (snd p) else None)"

section \<open>The guards\<close>

definition two_possible_extensions_on_one_path :: "Graph \<Rightarrow> Node \<Rightarrow> bool" where
  "two_possible_extensions_on_one_path g node \<longleftrightarrow>
     indegree g node \<ge> 2 \<or> outdegree g node \<ge> 2"

definition two_possible_extensions :: "Graph \<Rightarrow> Node \<Rightarrow> Node \<Rightarrow> bool" where
  "two_possible_extensions g node1 node2 \<longleftrightarrow>
     length (successors_edge_pair g node1 node2) \<ge> 2 \<or>
     length (successors_edge_pair g (reverse g node1) (reverse g node2)) \<ge> 2"

definition checkBranching :: "Graph \<Rightarrow> Kissnp2 \<Rightarrow> Node \<Rightarrow> Node \<Rightarrow> bool" where
  "checkBranching g ks node1 node2 =
     (if authorised_branching ks = 0 \<and>
         (two_possible_extensions_on_one_path g node1 \<or>
          two_possible_extensions_on_one_path g node2)
      then False
      else if authorised_branching ks = 1 \<and> two_possible_extensions g node1 node2
      then False
      else True)"

definition checkNodesDiff :: "Node \<Rightarrow> Node \<Rightarrow> Node \<Rightarrow> bool" where
  "checkNodesDiff previous current next \<longleftrightarrow>
     kmer next \<noteq> kmer current \<and> kmer next \<noteq> kmer previous"

definition checkPath :: "Graph \<Rightarrow> Bubble \<Rightarrow> bool" where
  "checkPath g b \<longleftrightarrow>
     toString g (fst (begin_b b)) < toString g (reverse g (fst (end_b b)))"

text \<open>
  \<open>checkLowComplexity\<close> stores the score in the bubble and returns the verdict.
  \<open>substr(0, sizeKmer-1)\<close> is the prefix of at most that many characters.
\<close>

definition checkLowComplexity ::
  "Graph \<Rightarrow> (string \<Rightarrow> string \<Rightarrow> int) \<Rightarrow> Kissnp2 \<Rightarrow> Bubble \<Rightarrow> bool \<times> Bubble" where
  "checkLowComplexity g filterLowComplexity2Paths ks b =
     (let path1 = take (sizeKmer g - 1) (toString g (fst (begin_b b))) @ toString g (fst (end_b b));
          path2 = take (sizeKmer g - 1) (toString g (snd (begin_b b))) @ toString g (snd (end_b b));
          b' = b\<lparr>score := filterLowComplexity2Paths path1 path2\<rparr>
      in (score b' < threshold ks \<or> (score b' \<ge> threshold ks \<and> low ks), b'))"

section \<open>Extension\<close>

text \<open>
  \<open>extend\<close> returns its boolean with the updated bubble and traversal state. Reading
  element 0 of an empty vector is the error \<open>None\<close>. The closures are read under the
  test \<open>size() == 1\<close>, where element 0 exists.
\<close>

definition extend ::
  "Graph \<Rightarrow> 't Traversal \<Rightarrow> Kissnp2 \<Rightarrow> Bubble \<Rightarrow> 't \<Rightarrow> (bool \<times> Bubble \<times> 't) option" where
  "extend g tr ks b t =
     do {
       (cl, cr, b1, t1) \<leftarrow>
         (if traversalKind ks \<noteq> NONE then
            (let preds = predecessors g (fst (begin_b b));
                 succs = successors g (fst (end_b b));
                 cl = (if length preds = 1 then nt_int (getNT g (preds ! 0) 0) else BAD);
                 cr = (if length succs = 1 then nt_int (getNT g (succs ! 0) (sizeKmer g - 1)) else BAD);
                 t0 = reset tr t
              in do {
                   s0 \<leftarrow> at succs 0;
                   (extR, tR) \<leftarrow> Some (traverse tr t0 s0 DIR_OUTCOMING (extensionRight b));
                   divR \<leftarrow> Some (if getBubbles tr tR = [] then length extR
                                  else fst (getBubbles tr tR ! 0));
                   p0 \<leftarrow> at preds 0;
                   (extL, tL) \<leftarrow> Some (traverse tr tR (reverse g p0) DIR_OUTCOMING (extensionLeft b));
                   divL \<leftarrow> Some (if getBubbles tr tL = [] then length extL
                                  else fst (getBubbles tr tL ! 0));
                   Some (cl, cr,
                         b\<lparr>extensionRight := extR, divergenceRight := divR,
                           extensionLeft := extL, divergenceLeft := divL\<rparr>, tL)
                 })
          else Some (BAD, BAD, b, t));
       w \<leftarrow> Some (if cl = BAD \<and> cr = BAD then 0
                   else if cl \<noteq> BAD \<and> cr = BAD then 1
                   else if cl = BAD \<and> cr \<noteq> BAD then 2
                   else if cl \<noteq> BAD \<and> cr \<noteq> BAD then 3
                   else where_to_extend b1);
       Some (True, b1\<lparr>where_to_extend := w, closureLeft := cl, closureRight := cr\<rparr>, t1)
     }"

text \<open>
  The vector class of the graph library, which is not in the sources, does not check its
  index: reading element 0 of an empty vector faults nothing and yields the node that the
  storage of the vector holds there. \<open>extend_unchecked\<close> is \<open>extend\<close> with that read: the
  two nodes found in an empty vector of predecessors and of successors are parameters,
  and the function is total.
\<close>

definition element0 :: "Node \<Rightarrow> Node list \<Rightarrow> Node" where
  "element0 stale xs = (case xs of [] \<Rightarrow> stale | x # _ \<Rightarrow> x)"

definition extend_unchecked ::
  "Node \<Rightarrow> Node \<Rightarrow> Graph \<Rightarrow> 't Traversal \<Rightarrow> Kissnp2 \<Rightarrow> Bubble \<Rightarrow> 't \<Rightarrow> bool \<times> Bubble \<times> 't" where
  "extend_unchecked stalePred staleSucc g tr ks b t =
     (let (cl, cr, b1, t1) =
        (if traversalKind ks \<noteq> NONE then
           (let preds = predecessors g (fst (begin_b b));
                succs = successors g (fst (end_b b));
                cl = (if length preds = 1 then nt_int (getNT g (preds ! 0) 0) else BAD);
                cr = (if length succs = 1 then nt_int (getNT g (succs ! 0) (sizeKmer g - 1)) else BAD);
                t0 = reset tr t;
                (extR, tR) = traverse tr t0 (element0 staleSucc succs) DIR_OUTCOMING (extensionRight b);
                divR = (if getBubbles tr tR = [] then length extR else fst (getBubbles tr tR ! 0));
                (extL, tL) = traverse tr tR (reverse g (element0 stalePred preds)) DIR_OUTCOMING
                               (extensionLeft b);
                divL = (if getBubbles tr tL = [] then length extL else fst (getBubbles tr tL ! 0))
            in (cl, cr,
                b\<lparr>extensionRight := extR, divergenceRight := divR,
                  extensionLeft := extL, divergenceLeft := divL\<rparr>, tL))
         else (BAD, BAD, b, t));
          w = (if cl = BAD \<and> cr = BAD then 0
               else if cl \<noteq> BAD \<and> cr = BAD then 1
               else if cl = BAD \<and> cr \<noteq> BAD then 2
               else if cl \<noteq> BAD \<and> cr \<noteq> BAD then 3
               else where_to_extend b1)
      in (True, b1\<lparr>where_to_extend := w, closureLeft := cl, closureRight := cr\<rparr>, t1))"

section \<open>Emission\<close>

fun show_nat :: "nat \<Rightarrow> string" where
  "show_nat n =
     (if n < 10 then [char_of (48 + n)]
      else show_nat (n div 10) @ [char_of (48 + n mod 10)])"

declare show_nat.simps [simp del]

text \<open>The remainder of C++ on \<open>int\<close>: it has the sign of the dividend.\<close>

definition c_rem :: "int \<Rightarrow> int \<Rightarrow> int" where
  "c_rem a b = sgn a * (\<bar>a\<bar> mod \<bar>b\<bar>)"

text \<open>
  The output pointer of \<open>buildSequence\<close> is a buffer with a write position;
  \<open>*(output++) = c\<close> is \<open>put c\<close>, an error outside the buffer. A counting loop
  is \<open>for_each\<close> over its indices. \<open>resize\<close> keeps the old bytes and the model fills
  the new ones with zero bytes. The lengths printed in the comment are unsigned 64-bit
  values, so their \<open>+ 1\<close> wraps at 2^64: \<open>size_t_of\<close>.
\<close>

definition size_t_of :: "nat \<Rightarrow> nat" where
  "size_t_of n = unat (word_of_nat n :: 64 word)"

definition put :: "char \<Rightarrow> char list \<times> nat \<Rightarrow> (char list \<times> nat) option" where
  "put c w = (case w of (buf, out) \<Rightarrow>
     if out < length buf then Some (buf[out := c], Suc out) else None)"

fun for_each :: "('a \<Rightarrow> 's \<Rightarrow> 's option) \<Rightarrow> 'a list \<Rightarrow> 's \<Rightarrow> 's option" where
  "for_each body [] s = Some s"
| "for_each body (x # xs) s =
     (case body x s of None \<Rightarrow> None | Some s' \<Rightarrow> for_each body xs s')"

definition resize :: "nat \<Rightarrow> char list \<Rightarrow> char list" where
  "resize n buf = take n buf @ replicate (n - length buf) (CHR 0x00)"

definition at_int :: "'a list \<Rightarrow> int \<Rightarrow> 'a option" where
  "at_int xs i = (if 0 \<le> i \<and> nat i < length xs then Some (xs ! nat i) else None)"

definition buildSequence ::
  "Graph \<Rightarrow> Kissnp2 \<Rightarrow> Bubble \<Rightarrow> nat \<Rightarrow> string \<Rightarrow> Sequence \<Rightarrow> Sequence option" where
  "buildSequence g ks b pathIdx type seq =
     (let c0 = ''SNP_'' @ type @ ''_path_'' @ show_nat (unat (index b)) @ ''|'' @
               (if score b \<ge> threshold ks then ''low'' else ''high'');
          c1 = (if traversalKind ks = UNITIG then
                  c0 @ ''|left_unitig_length_'' @
                  show_nat (if c_rem (where_to_extend b) 2 = 1 then size_t_of (length (extensionLeft b) + 1) else 0) @
                  ''|right_unitig_length_'' @
                  show_nat (if where_to_extend b > 1 then size_t_of (length (extensionRight b) + 1) else 0)
                else c0);
          c2 = (if traversalKind ks = CONTIG then
                  c1 @ ''|left_unitig_length_'' @
                  show_nat (if c_rem (where_to_extend b) 2 = 1 then size_t_of (divergenceLeft b + 1) else 0) @
                  ''|right_unitig_length_'' @
                  show_nat (if where_to_extend b > 1 then size_t_of (divergenceRight b + 1) else 0) @
                  ''|left_contig_length_'' @
                  show_nat (if c_rem (where_to_extend b) 2 = 1 then size_t_of (length (extensionLeft b) + 1) else 0) @
                  ''|right_contig_length_'' @
                  show_nat (if where_to_extend b > 1 then size_t_of (length (extensionRight b) + 1) else 0)
                else c1);
          len0 = (2 * sizeKmer g - 1) + length (extensionLeft b) + length (extensionRight b);
          len1 = (if closureLeft b \<noteq> BAD then len0 + 1 else len0);
          len = (if closureRight b \<noteq> BAD then len1 + 1 else len1);
          buf = (if length (data seq) < len + 1 then resize (len + 1) (data seq) else data seq);
          lenLeft = length (extensionLeft b);
          lenRight = length (extensionRight b)
      in do {
           o1 \<leftarrow> for_each (\<lambda>i. put (tolower (ascii (reverse_nt (extensionLeft b ! (lenLeft - i - 1))))))
                   [0..<lenLeft] (buf, 0);
           o2 \<leftarrow> (if closureLeft b \<noteq> BAD
                   then do { c \<leftarrow> at_int bin2NT (closureLeft b); put (tolower c) o1 }
                   else Some o1);
           nb \<leftarrow> sel2 (begin_b b) pathIdx;
           ne \<leftarrow> sel2 (end_b b) pathIdx;
           o3 \<leftarrow> for_each (\<lambda>i w. do { c \<leftarrow> at (toString g nb) i; put c w }) [0..<sizeKmer g - 1] o2;
           o4 \<leftarrow> for_each (\<lambda>i w. do { c \<leftarrow> at (toString g ne) i; put c w }) [0..<sizeKmer g] o3;
           o5 \<leftarrow> (if closureRight b \<noteq> BAD
                   then do { c \<leftarrow> at_int bin2NT (closureRight b); put (tolower c) o4 }
                   else Some o4);
           o6 \<leftarrow> for_each (\<lambda>i. put (tolower (ascii (extensionRight b ! i)))) [0..<lenRight] o5;
           o7 \<leftarrow> put (CHR 0x00) o6;
           Some (seq\<lparr>comment := c2, data := fst o7\<rparr>)
         })"

text \<open>
  \<open>finish\<close> returns the updated tool and bubble. The counter array has four entries;
  an index outside 0..3 is the error \<open>None\<close>.
\<close>

definition finish :: "Graph \<Rightarrow> Kissnp2 \<Rightarrow> Bubble \<Rightarrow> (Kissnp2 \<times> Bubble) option" where
  "finish g ks b =
     (let ks1 = ks\<lparr>nb_bubbles := nb_bubbles ks + 1\<rparr>;
          b1 = b\<lparr>index := nb_bubbles ks1\<rparr>
      in do {
           s1 \<leftarrow> buildSequence g ks1 b1 0 ''higher'' (seq1 b1);
           b2 \<leftarrow> Some (b1\<lparr>seq1 := s1\<rparr>);
           s2 \<leftarrow> buildSequence g ks1 b2 1 ''lower'' (seq2 b2);
           b3 \<leftarrow> Some (b2\<lparr>seq2 := s2\<rparr>);
           ks2 \<leftarrow> Some (ks1\<lparr>outputBank := outputBank ks1 @ [seq1 b3, seq2 b3]\<rparr>);
           ks3 \<leftarrow> (if 0 \<le> where_to_extend b3 \<and> where_to_extend b3 < 4
                     \<and> nat (where_to_extend b3) < length (nb_where_to_extend ks2)
                    then Some (ks2\<lparr>nb_where_to_extend :=
                            (nb_where_to_extend ks2)
                              [nat (where_to_extend b3) :=
                                 nb_where_to_extend ks2 ! nat (where_to_extend b3) + 1]\<rparr>)
                    else None);
           Some (if score b3 < threshold ks3
                 then ks3\<lparr>nb_bubbles_high := nb_bubbles_high ks3 + 1\<rparr>
                 else ks3\<lparr>nb_bubbles_low := nb_bubbles_low ks3 + 1\<rparr>, b3)
         })"

section \<open>The search\<close>

text \<open>
  The body of the terminal branch of \<open>expand\<close> after its branching test: the end nodes
  are stored, then \<open>checkPath\<close>, \<open>checkLowComplexity\<close> (evaluated only when the first
  holds), \<open>extend\<close> and \<open>finish\<close>.
\<close>

definition expand_terminal ::
  "Graph \<Rightarrow> (string \<Rightarrow> string \<Rightarrow> int) \<Rightarrow> 't Traversal \<Rightarrow> 't BubbleFinder \<Rightarrow> Node \<Rightarrow> Node
     \<Rightarrow> 't BubbleFinder option" where
  "expand_terminal g flc tr st nextNode1 nextNode2 =
     (let b1 = (bubble st)\<lparr>end_b := (nextNode1, nextNode2)\<rparr> in
      if checkPath g b1 then
        (case checkLowComplexity g flc (tool st) b1 of (ok, b2) \<Rightarrow>
           if ok then
             do {
               (r, b3, t3) \<leftarrow> extend g tr (tool st) b2 (travState st);
               if r then
                 do {
                   (ks', b4) \<leftarrow> finish g (tool st) b3;
                   Some (st\<lparr>tool := ks', bubble := b4, travState := t3\<rparr>)
                 }
               else Some (st\<lparr>bubble := b3, travState := t3\<rparr>)
             }
           else Some (st\<lparr>bubble := b2\<rparr>))
      else Some (st\<lparr>bubble := b1\<rparr>))"

text \<open>
  \<open>expand\<close> with its successor loop \<open>expand_loop\<close> (the \<open>for\<close> over the vector, from the
  current index on). A failed \<open>assert\<close> is the error \<open>None\<close>; \<open>continue\<close> goes on with
  the rest of the vector, \<open>break\<close> and \<open>return\<close> leave the loop with the state reached.
\<close>

function
  expand ::
    "Graph \<Rightarrow> (string \<Rightarrow> string \<Rightarrow> int) \<Rightarrow> 't Traversal \<Rightarrow> nat \<Rightarrow> 't BubbleFinder
       \<Rightarrow> Node \<Rightarrow> Node \<Rightarrow> Node \<Rightarrow> Node \<Rightarrow> 't BubbleFinder option"
and
  expand_loop ::
    "Graph \<Rightarrow> (string \<Rightarrow> string \<Rightarrow> int) \<Rightarrow> 't Traversal \<Rightarrow> nat \<Rightarrow> (Node \<times> Node) list
       \<Rightarrow> 't BubbleFinder \<Rightarrow> Node \<Rightarrow> Node \<Rightarrow> Node \<Rightarrow> Node \<Rightarrow> 't BubbleFinder option"
where
  "expand g flc tr pos st node1 node2 previousNode1 previousNode2 =
     (if \<not> pos \<le> sizeKmer g - 1 then None
      else if \<not> checkBranching g (tool st) node1 node2 then Some st
      else expand_loop g flc tr pos (successors_pair g node1 node2) st
             node1 node2 previousNode1 previousNode2)"
| "expand_loop g flc tr pos [] st node1 node2 previousNode1 previousNode2 = Some st"
| "expand_loop g flc tr pos (nx # rest) st node1 node2 previousNode1 previousNode2 =
     (if \<not> (checkNodesDiff previousNode1 node1 (fst nx) \<and>
             checkNodesDiff previousNode2 node2 (snd nx))
      then expand_loop g flc tr pos rest st node1 node2 previousNode1 previousNode2
      else if pos < sizeKmer g - 1 then
        (case expand g flc tr (pos + 1) st (fst nx) (snd nx) node1 node2 of
           None \<Rightarrow> None
         | Some st' \<Rightarrow>
             if authorised_branching (tool st') = 0 \<or> authorised_branching (tool st') = 1
             then Some st'
             else expand_loop g flc tr pos rest st' node1 node2 previousNode1 previousNode2)
      else if \<not> checkBranching g (tool st) (fst nx) (snd nx) then Some st
      else
        (case expand_terminal g flc tr st (fst nx) (snd nx) of
           None \<Rightarrow> None
         | Some st' \<Rightarrow>
             expand_loop g flc tr pos rest st' node1 node2 previousNode1 previousNode2))"
  by pat_completeness auto
termination
  by (relation "measures
        [\<lambda>x. case x of
               Inl (g, flc, tr, pos, r) \<Rightarrow> 2 * (sizeKmer g - pos) + 1
             | Inr (g, flc, tr, pos, r) \<Rightarrow> 2 * (sizeKmer g - pos),
         \<lambda>x. case x of
               Inl r \<Rightarrow> 0
             | Inr (g, flc, tr, pos, succs, r) \<Rightarrow> length succs]")
     auto

declare expand.simps [simp del] expand_loop.simps [simp del]

text \<open>\<open>start\<close> and the call operator of the finder.\<close>

fun start_loop ::
  "Graph \<Rightarrow> (string \<Rightarrow> string \<Rightarrow> int) \<Rightarrow> 't Traversal \<Rightarrow> Node \<Rightarrow> Node list \<Rightarrow> 't BubbleFinder
     \<Rightarrow> 't BubbleFinder option" where
  "start_loop g flc tr node [] st = Some st"
| "start_loop g flc tr node (m # ms) st =
     (let st1 = st\<lparr>bubble := (bubble st)\<lparr>begin_b := (fst (begin_b (bubble st)), m)\<rparr>\<rparr> in
      case expand g flc tr 1 st1 node m Node_sentinel Node_sentinel of
        None \<Rightarrow> None
      | Some st' \<Rightarrow> start_loop g flc tr node ms st')"

definition start ::
  "Graph \<Rightarrow> (string \<Rightarrow> string \<Rightarrow> int) \<Rightarrow> 't Traversal \<Rightarrow> 't BubbleFinder \<Rightarrow> Node
     \<Rightarrow> 't BubbleFinder option" where
  "start g flc tr st node =
     (let mutations = mutate g node (sizeKmer g - 1) 1;
          st1 = st\<lparr>bubble := (bubble st)\<lparr>begin_b := (node, snd (begin_b (bubble st)))\<rparr>\<rparr>
      in start_loop g flc tr node mutations st1)"

definition process_node ::
  "Graph \<Rightarrow> (string \<Rightarrow> string \<Rightarrow> int) \<Rightarrow> 't Traversal \<Rightarrow> 't BubbleFinder \<Rightarrow> Node
     \<Rightarrow> 't BubbleFinder option" where
  "process_node g flc tr st node =
     do {
       st1 \<leftarrow> start g flc tr st node;
       start g flc tr st1 (reverse g node)
     }"

section \<open>The search with its history\<close>

text \<open>
  The bubble keeps only the first and the last node of each path. To state properties of
  the nodes in between, \<open>expand_trace\<close> is \<open>expand\<close> with two ghost values that the code
  does not have and that decide nothing: \<open>trail\<close>, the pairs of nodes of the two paths
  from position 0 up to the current pair, and a log with one entry for every call of
  \<open>finish\<close>, holding the bubble passed to it and the trail completed by the end
  nodes. \<open>finish_argument\<close> is the bubble that \<open>expand_terminal\<close> passes to \<open>finish\<close>, if
  it calls it. Lemma \<open>expand_trace_erase\<close> shows that dropping the log gives \<open>expand\<close>.
\<close>

type_synonym trail = "(Node \<times> Node) list"

definition finish_argument ::
  "Graph \<Rightarrow> (string \<Rightarrow> string \<Rightarrow> int) \<Rightarrow> 't Traversal \<Rightarrow> 't BubbleFinder \<Rightarrow> Node \<Rightarrow> Node
     \<Rightarrow> Bubble option" where
  "finish_argument g flc tr st nextNode1 nextNode2 =
     (let b1 = (bubble st)\<lparr>end_b := (nextNode1, nextNode2)\<rparr> in
      if checkPath g b1 then
        (case checkLowComplexity g flc (tool st) b1 of (ok, b2) \<Rightarrow>
           if ok then
             (case extend g tr (tool st) b2 (travState st) of
                None \<Rightarrow> None
              | Some (r, b3, t3) \<Rightarrow> if r then Some b3 else None)
           else None)
      else None)"

function
  expand_trace ::
    "Graph \<Rightarrow> (string \<Rightarrow> string \<Rightarrow> int) \<Rightarrow> 't Traversal \<Rightarrow> nat \<Rightarrow> 't BubbleFinder
       \<Rightarrow> Node \<Rightarrow> Node \<Rightarrow> Node \<Rightarrow> Node \<Rightarrow> trail \<Rightarrow> (Bubble \<times> trail) list
       \<Rightarrow> ('t BubbleFinder \<times> (Bubble \<times> trail) list) option"
and
  expand_loop_trace ::
    "Graph \<Rightarrow> (string \<Rightarrow> string \<Rightarrow> int) \<Rightarrow> 't Traversal \<Rightarrow> nat \<Rightarrow> (Node \<times> Node) list
       \<Rightarrow> 't BubbleFinder \<Rightarrow> Node \<Rightarrow> Node \<Rightarrow> Node \<Rightarrow> Node \<Rightarrow> trail \<Rightarrow> (Bubble \<times> trail) list
       \<Rightarrow> ('t BubbleFinder \<times> (Bubble \<times> trail) list) option"
where
  "expand_trace g flc tr pos st node1 node2 previousNode1 previousNode2 trail lg =
     (if \<not> pos \<le> sizeKmer g - 1 then None
      else if \<not> checkBranching g (tool st) node1 node2 then Some (st, lg)
      else expand_loop_trace g flc tr pos (successors_pair g node1 node2) st
             node1 node2 previousNode1 previousNode2 trail lg)"
| "expand_loop_trace g flc tr pos [] st node1 node2 previousNode1 previousNode2 trail lg =
     Some (st, lg)"
| "expand_loop_trace g flc tr pos (nx # rest) st node1 node2 previousNode1 previousNode2 trail lg =
     (if \<not> (checkNodesDiff previousNode1 node1 (fst nx) \<and>
             checkNodesDiff previousNode2 node2 (snd nx))
      then expand_loop_trace g flc tr pos rest st node1 node2 previousNode1 previousNode2 trail lg
      else if pos < sizeKmer g - 1 then
        (case expand_trace g flc tr (pos + 1) st (fst nx) (snd nx) node1 node2 (trail @ [nx]) lg of
           None \<Rightarrow> None
         | Some (st', lg') \<Rightarrow>
             if authorised_branching (tool st') = 0 \<or> authorised_branching (tool st') = 1
             then Some (st', lg')
             else expand_loop_trace g flc tr pos rest st' node1 node2
                    previousNode1 previousNode2 trail lg')
      else if \<not> checkBranching g (tool st) (fst nx) (snd nx) then Some (st, lg)
      else
        (case expand_terminal g flc tr st (fst nx) (snd nx) of
           None \<Rightarrow> None
         | Some st' \<Rightarrow>
             expand_loop_trace g flc tr pos rest st' node1 node2 previousNode1 previousNode2 trail
               (case finish_argument g flc tr st (fst nx) (snd nx) of
                  None \<Rightarrow> lg
                | Some b \<Rightarrow> lg @ [(b, trail @ [nx])])))"
  by pat_completeness auto
termination
  by (relation "measures
        [\<lambda>x. case x of
               Inl (g, flc, tr, pos, r) \<Rightarrow> 2 * (sizeKmer g - pos) + 1
             | Inr (g, flc, tr, pos, r) \<Rightarrow> 2 * (sizeKmer g - pos),
         \<lambda>x. case x of
               Inl r \<Rightarrow> 0
             | Inr (g, flc, tr, pos, succs, r) \<Rightarrow> length succs]")
     auto

declare expand_trace.simps [simp del] expand_loop_trace.simps [simp del]

section \<open>A de Bruijn graph over a list of k-mers\<close>

text \<open>
  Modelled from the spec: the graph library is not in the sources. \<open>dbg k kmers\<close> answers
  the queries of section 6 of the specification for the de Bruijn graph whose vertices
  are the given k-mers and their reverse complements: a node is the smaller of the
  encodings of a k-mer and of its reverse complement, with the strand that tells which
  one is meant; successors append a letter and drop the first one, in the order A, C, T,
  G of the encoding; joint successors are those that append the same letter to both.
  It provides concrete graphs on which the functions above are run.
\<close>

definition nt_of_char :: "char \<Rightarrow> Nucleotide" where
  "nt_of_char c =
     (if c = CHR ''C'' then NUCL_C else if c = CHR ''T'' then NUCL_T
      else if c = CHR ''G'' then NUCL_G else NUCL_A)"

definition nt_of_nat :: "nat \<Rightarrow> Nucleotide" where
  "nt_of_nat n =
     (if n = 1 then NUCL_C else if n = 2 then NUCL_T else if n = 3 then NUCL_G else NUCL_A)"

definition encode :: "string \<Rightarrow> 64 word" where
  "encode s = foldl (\<lambda>w c. 4 * w + word_of_int (nt_int (nt_of_char c))) 0 s"

fun decode :: "nat \<Rightarrow> 64 word \<Rightarrow> string" where
  "decode 0 w = []"
| "decode (Suc k) w = decode k (w div 4) @ [ascii (nt_of_nat (unat (w mod 4)))]"

definition revcomp :: "string \<Rightarrow> string" where
  "revcomp s = rev (map (\<lambda>c. ascii (reverse_nt (nt_of_char c))) s)"

definition dbg_node :: "string \<Rightarrow> Node" where
  "dbg_node s =
     (if encode s \<le> encode (revcomp s)
      then \<lparr>kmer = encode s, strand = STRAND_FORWARD\<rparr>
      else \<lparr>kmer = encode (revcomp s), strand = STRAND_REVCOMP\<rparr>)"

definition dbg_toString :: "nat \<Rightarrow> Node \<Rightarrow> string" where
  "dbg_toString k n =
     (if strand n = STRAND_FORWARD then decode k (kmer n) else revcomp (decode k (kmer n)))"

definition dbg_reverse :: "Node \<Rightarrow> Node" where
  "dbg_reverse n =
     n\<lparr>strand := (if strand n = STRAND_FORWARD then STRAND_REVCOMP else STRAND_FORWARD)\<rparr>"

definition dbg_contains :: "string list \<Rightarrow> string \<Rightarrow> bool" where
  "dbg_contains kmers s \<longleftrightarrow> kmer (dbg_node s) \<in> set (map (\<lambda>x. kmer (dbg_node x)) kmers)"

definition dbg_successors :: "nat \<Rightarrow> string list \<Rightarrow> Node \<Rightarrow> Node list" where
  "dbg_successors k kmers n =
     map dbg_node (filter (dbg_contains kmers) (map (\<lambda>c. tl (dbg_toString k n) @ [c]) ''ACTG''))"

definition dbg_predecessors :: "nat \<Rightarrow> string list \<Rightarrow> Node \<Rightarrow> Node list" where
  "dbg_predecessors k kmers n =
     map dbg_node (filter (dbg_contains kmers) (map (\<lambda>c. c # butlast (dbg_toString k n)) ''ACTG''))"

definition dbg_joint :: "nat \<Rightarrow> string list \<Rightarrow> Node \<Rightarrow> Node \<Rightarrow> char list" where
  "dbg_joint k kmers n1 n2 =
     filter (\<lambda>c. dbg_contains kmers (tl (dbg_toString k n1) @ [c]) \<and>
                 dbg_contains kmers (tl (dbg_toString k n2) @ [c])) ''ACTG''"

definition dbg_successors_pair :: "nat \<Rightarrow> string list \<Rightarrow> Node \<Rightarrow> Node \<Rightarrow> (Node \<times> Node) list" where
  "dbg_successors_pair k kmers n1 n2 =
     map (\<lambda>c. (dbg_node (tl (dbg_toString k n1) @ [c]), dbg_node (tl (dbg_toString k n2) @ [c])))
       (dbg_joint k kmers n1 n2)"

definition dbg_successors_edge_pair ::
  "nat \<Rightarrow> string list \<Rightarrow> Node \<Rightarrow> Node \<Rightarrow> (Edge \<times> Edge) list" where
  "dbg_successors_edge_pair k kmers n1 n2 =
     map (\<lambda>c. (\<lparr>edge_from = n1, edge_to = dbg_node (tl (dbg_toString k n1) @ [c]),
                  edge_nt = nt_of_char c\<rparr>,
                \<lparr>edge_from = n2, edge_to = dbg_node (tl (dbg_toString k n2) @ [c]),
                  edge_nt = nt_of_char c\<rparr>))
       (dbg_joint k kmers n1 n2)"

definition dbg_mutate :: "nat \<Rightarrow> string list \<Rightarrow> Node \<Rightarrow> nat \<Rightarrow> int \<Rightarrow> Node list" where
  "dbg_mutate k kmers n idx mode =
     map dbg_node
       (filter (dbg_contains kmers)
          (map (\<lambda>c. (dbg_toString k n)[idx := c])
             (filter (\<lambda>c. mode = 0 \<or>
                          nt_int (nt_of_char (dbg_toString k n ! idx)) < nt_int (nt_of_char c))
                ''ACTG'')))"

definition dbg :: "nat \<Rightarrow> string list \<Rightarrow> Graph" where
  "dbg k kmers =
     \<lparr>getKmerSize = k,
      reverse = dbg_reverse,
      toString = dbg_toString k,
      mutate = dbg_mutate k kmers,
      successors = dbg_successors k kmers,
      predecessors = dbg_predecessors k kmers,
      successors_pair = dbg_successors_pair k kmers,
      successors_edge_pair = dbg_successors_edge_pair k kmers,
      indegree = (\<lambda>n. length (dbg_predecessors k kmers n)),
      outdegree = (\<lambda>n. length (dbg_successors k kmers n)),
      getNT = (\<lambda>n i. nt_of_char (dbg_toString k n ! i))\<rparr>"

text \<open>
  A traversal that finds nothing (the path it is given comes back empty, no bubble is
  reported), a filter that scores every pair of paths 0, and the state of a finder
  before its first node: empty bubble, counters at zero, empty bank.
\<close>

definition null_traversal :: "unit Traversal" where
  "null_traversal = \<lparr>traverse = (\<lambda>t n d p. ([], t)), getBubbles = (\<lambda>t. []), reset = (\<lambda>t. t)\<rparr>"

definition flc_zero :: "string \<Rightarrow> string \<Rightarrow> int" where
  "flc_zero p1 p2 = 0"

definition Bubble_init :: Bubble where
  "Bubble_init =
     \<lparr>begin_b = (Node_sentinel, Node_sentinel), end_b = (Node_sentinel, Node_sentinel),
      extensionLeft = [], extensionRight = [], closureLeft = BAD, closureRight = BAD,
      divergenceLeft = 0, divergenceRight = 0, where_to_extend = 0, score = 0, index = 0,
      seq1 = \<lparr>comment = [], data = []\<rparr>, seq2 = \<lparr>comment = [], data = []\<rparr>\<rparr>"

definition Kissnp2_init :: "int \<Rightarrow> TraversalKind \<Rightarrow> int \<Rightarrow> bool \<Rightarrow> Kissnp2" where
  "Kissnp2_init ab tk th lw =
     \<lparr>authorised_branching = ab, traversalKind = tk, threshold = th, low = lw,
      nb_bubbles = 0, nb_bubbles_high = 0, nb_bubbles_low = 0,
      nb_where_to_extend = [0, 0, 0, 0], outputBank = []\<rparr>"

definition BubbleFinder_init :: "int \<Rightarrow> TraversalKind \<Rightarrow> int \<Rightarrow> bool \<Rightarrow> unit BubbleFinder" where
  "BubbleFinder_init ab tk th lw =
     \<lparr>tool = Kissnp2_init ab tk th lw, bubble = Bubble_init, travState = ()\<rparr>"

text \<open>
  Two graphs for k = 3. In \<open>graph_fork\<close> the pair (CAA, CAT) has the two joint
  successors (AAC, ATC) and (AAG, ATG) and its reverse pair has none. In \<open>graph_snp\<close>
  the paths CAA, AAT, ATC and CAT, ATT, TTC form a bubble whose middle nodes AAT and ATT
  are reverse complements of each other.
\<close>

definition graph_fork :: Graph where
  "graph_fork = dbg 3 [''CAA'', ''CAT'', ''AAC'', ''ATC'', ''AAG'']"

definition graph_snp :: Graph where
  "graph_snp = dbg 3 [''CAA'', ''CAT'', ''AAT'', ''ATC'', ''TTC'']"

text \<open>
  \<open>graph_closure\<close> is \<open>graph_snp\<close> with the k-mer TCA, which is the only predecessor of
  CAA and the only successor of ATC. \<open>bubble_snp\<close> is the bubble of the two paths.
\<close>

definition graph_closure :: Graph where
  "graph_closure = dbg 3 [''TCA'', ''CAA'', ''CAT'', ''AAT'', ''ATC'', ''TTC'']"

definition bubble_snp :: Bubble where
  "bubble_snp = Bubble_init\<lparr>begin_b := (dbg_node ''CAA'', dbg_node ''CAT''),
                            end_b := (dbg_node ''ATC'', dbg_node ''TTC'')\<rparr>"

text \<open>
  For the proofs about the output buffer: \<open>written buf pre\<close> is the state of the output
  pointer after the bytes \<open>pre\<close> have been written from the start of \<open>buf\<close>.
\<close>

definition written :: "char list \<Rightarrow> char list \<Rightarrow> char list \<times> nat" where
  "written buf pre = (pre @ drop (length pre) buf, length pre)"

text \<open>A run of \<open>finish\<close> calls, one per bubble, from a given tool state.\<close>

fun finish_all :: "Graph \<Rightarrow> Kissnp2 \<Rightarrow> Bubble list \<Rightarrow> Kissnp2 option" where
  "finish_all g ks [] = Some ks"
| "finish_all g ks (b # bs) =
     (case finish g ks b of None \<Rightarrow> None | Some (ks', b') \<Rightarrow> finish_all g ks' bs)"

text \<open>\<open>bubble_snp\<close> after an extension that found closures and flanks.\<close>

definition bubble_ext :: Bubble where
  "bubble_ext = bubble_snp\<lparr>extensionLeft := [NUCL_A, NUCL_C], extensionRight := [NUCL_G],
                            closureLeft := 2, closureRight := 0, where_to_extend := 3\<rparr>"

text \<open>
  For the proofs about the history: \<open>steps_differ prev xs\<close> says that along \<open>xs\<close>,
  started after the pair \<open>prev\<close>, each node differs as a k-mer from the one before it on
  its own path; \<open>entry_ok\<close> is what holds of a log entry added below a call of
  \<open>expand_trace\<close> at position \<open>pos\<close> with the given trail; \<open>trace_grows\<close> relates the state
  and log before and after such a call.
\<close>

fun steps_differ :: "Node \<times> Node \<Rightarrow> trail \<Rightarrow> bool" where
  "steps_differ prev [] = True"
| "steps_differ prev (x # xs) =
     (kmer (fst x) \<noteq> kmer (fst prev) \<and> kmer (snd x) \<noteq> kmer (snd prev) \<and> steps_differ x xs)"

definition entry_ok :: "Graph \<Rightarrow> nat \<Rightarrow> trail \<Rightarrow> Node \<times> Node \<Rightarrow> Bubble \<times> trail \<Rightarrow> bool" where
  "entry_ok g pos trail bb e \<longleftrightarrow>
     take (length trail) (snd e) = trail \<and>
     length (snd e) = length trail + (sizeKmer g - pos) \<and>
     steps_differ (last trail) (drop (length trail) (snd e)) \<and>
     checkPath g (fst e) \<and> begin_b (fst e) = bb \<and> end_b (fst e) = last (snd e)"

definition trace_grows ::
  "Graph \<Rightarrow> nat \<Rightarrow> trail \<Rightarrow> 't BubbleFinder \<Rightarrow> (Bubble \<times> trail) list
     \<Rightarrow> 't BubbleFinder \<Rightarrow> (Bubble \<times> trail) list \<Rightarrow> bool" where
  "trace_grows g pos trail st lg st' lg' \<longleftrightarrow>
     begin_b (bubble st') = begin_b (bubble st) \<and>
     (\<exists>new. lg' = lg @ new \<and>
        length (outputBank (tool st')) = length (outputBank (tool st)) + 2 * length new \<and>
        list_all (entry_ok g pos trail (begin_b (bubble st))) new)"

text \<open>
  The finder at the call \<open>expand(1, CAA, CAT, ...)\<close> that \<open>start\<close> makes on \<open>graph_snp\<close>,
  under a given branching policy, without extension and with \<open>low\<close> set, so that the
  low-complexity check accepts whatever the filter scores; and the node pairs of the two
  bubbles found there.
\<close>

definition finder_snp :: "int \<Rightarrow> unit BubbleFinder" where
  "finder_snp ab =
     \<lparr>tool = Kissnp2_init ab NONE 100 True,
      bubble = Bubble_init\<lparr>begin_b := (dbg_node ''CAA'', dbg_node ''CAT'')\<rparr>,
      travState = ()\<rparr>"

definition trail_snp :: trail where
  "trail_snp = [(dbg_node ''CAA'', dbg_node ''CAT''), (dbg_node ''AAT'', dbg_node ''ATT''),
                (dbg_node ''ATC'', dbg_node ''TTC'')]"

definition trail_snp_back :: trail where
  "trail_snp_back = [(dbg_node ''CAA'', dbg_node ''CAT''), (dbg_node ''AAT'', dbg_node ''ATT''),
                     (dbg_node ''ATG'', dbg_node ''TTG'')]"

section \<open>Properties of the guards\<close>

text \<open>
  C1 (as amended). \<open>checkBranching\<close> returns false exactly when the policy is 0 and one
  of the two nodes has in-degree or out-degree at least 2, or the policy is 1 and the
  joint successors of the pair, or the joint successors of the reversed pair, are at
  least 2. With any other policy, 2 among them, it returns true.
\<close>

theorem checkBranching_rejects:
  "(checkBranching g ks node1 node2 = False \<longleftrightarrow>
     (authorised_branching ks = 0 \<and>
        (indegree g node1 \<ge> 2 \<or> outdegree g node1 \<ge> 2 \<or>
         indegree g node2 \<ge> 2 \<or> outdegree g node2 \<ge> 2)) \<or>
     (authorised_branching ks = 1 \<and>
        (length (successors_edge_pair g node1 node2) \<ge> 2 \<or>
         length (successors_edge_pair g (reverse g node1) (reverse g node2)) \<ge> 2))) \<and>
   (authorised_branching ks = 2 \<longrightarrow> checkBranching g ks node1 node2)"
  by (auto simp: checkBranching_def two_possible_extensions_def
        two_possible_extensions_on_one_path_def)

theorem checkBranching_rejects_witness:
  "checkBranching graph_fork (Kissnp2_init 1 NONE 100 False)
     (dbg_node ''CAA'') (dbg_node ''CAT'') = False \<and>
   checkBranching graph_fork (Kissnp2_init 2 NONE 100 False)
     (dbg_node ''CAA'') (dbg_node ''CAT'') = True"
proof -
  have fork: "length (successors_edge_pair graph_fork (dbg_node ''CAA'') (dbg_node ''CAT'')) \<ge> 2"
    by code_simp
  have policy: "authorised_branching (Kissnp2_init 1 NONE 100 False) = 1"
    "authorised_branching (Kissnp2_init 2 NONE 100 False) = 2"
    by (simp_all add: Kissnp2_init_def)
  show ?thesis
    using checkBranching_rejects [of graph_fork "Kissnp2_init 1 NONE 100 False"
            "dbg_node ''CAA''" "dbg_node ''CAT''"]
          checkBranching_rejects [of graph_fork "Kissnp2_init 2 NONE 100 False"
            "dbg_node ''CAA''" "dbg_node ''CAT''"]
          fork policy
    by simp
qed

text \<open>
  C1, the claim as stated fails: under policy 1 the pair (CAA, CAT) of \<open>graph_fork\<close> is
  rejected although only the forward side has two joint successors; the reverse side
  has none.
\<close>

theorem checkBranching_both_sides_counterexample:
  "authorised_branching (Kissnp2_init 1 NONE 100 False) = 1 \<and>
   checkBranching graph_fork (Kissnp2_init 1 NONE 100 False)
     (dbg_node ''CAA'') (dbg_node ''CAT'') = False \<and>
   length (successors_edge_pair graph_fork (dbg_node ''CAA'') (dbg_node ''CAT'')) = 2 \<and>
   length (successors_edge_pair graph_fork (reverse graph_fork (dbg_node ''CAA''))
             (reverse graph_fork (dbg_node ''CAT''))) = 0"
  by code_simp

text \<open>
  C7. \<open>checkLowComplexity\<close> accepts exactly when the score it computes is below the
  threshold, or is at least the threshold while \<open>low\<close> is set. The score is the filter's
  value on the two paths and does not depend on \<open>low\<close>, so a bubble accepted with
  \<open>low = false\<close> is accepted with \<open>low = true\<close>.
\<close>

theorem checkLowComplexity_accepts:
  "(fst (checkLowComplexity g flc ks b) \<longleftrightarrow>
      score (snd (checkLowComplexity g flc ks b)) < threshold ks \<or>
      (score (snd (checkLowComplexity g flc ks b)) \<ge> threshold ks \<and> low ks)) \<and>
   score (snd (checkLowComplexity g flc ks b)) =
      flc (take (sizeKmer g - 1) (toString g (fst (begin_b b))) @ toString g (fst (end_b b)))
          (take (sizeKmer g - 1) (toString g (snd (begin_b b))) @ toString g (snd (end_b b))) \<and>
   snd (checkLowComplexity g flc (ks\<lparr>low := True\<rparr>) b) =
     snd (checkLowComplexity g flc (ks\<lparr>low := False\<rparr>) b) \<and>
   (fst (checkLowComplexity g flc (ks\<lparr>low := False\<rparr>) b) \<longrightarrow>
    fst (checkLowComplexity g flc (ks\<lparr>low := True\<rparr>) b))"
  by (simp add: checkLowComplexity_def Let_def)

theorem checkLowComplexity_accepts_witness:
  "fst (checkLowComplexity graph_snp flc_zero ((Kissnp2_init 2 NONE 100 False)\<lparr>low := False\<rparr>)
          Bubble_init) \<and>
   fst (checkLowComplexity graph_snp flc_zero ((Kissnp2_init 2 NONE 100 False)\<lparr>low := True\<rparr>)
          Bubble_init) \<and>
   \<not> fst (checkLowComplexity graph_snp flc_zero (Kissnp2_init 2 NONE 0 False) Bubble_init)"
proof -
  have a: "fst (checkLowComplexity graph_snp flc_zero
                 ((Kissnp2_init 2 NONE 100 False)\<lparr>low := False\<rparr>) Bubble_init)"
    by (simp add: checkLowComplexity_def Let_def flc_zero_def Kissnp2_init_def)
  have t: "threshold (Kissnp2_init 2 NONE 0 False) = 0" "\<not> low (Kissnp2_init 2 NONE 0 False)"
    by (simp_all add: Kissnp2_init_def)
  have s: "score (snd (checkLowComplexity graph_snp flc_zero (Kissnp2_init 2 NONE 0 False)
                         Bubble_init)) = 0"
    using checkLowComplexity_accepts
            [of graph_snp flc_zero "Kissnp2_init 2 NONE 0 False" Bubble_init]
    by (simp add: flc_zero_def)
  show ?thesis
    using a t s
      checkLowComplexity_accepts [of graph_snp flc_zero "Kissnp2_init 2 NONE 100 False" Bubble_init]
      checkLowComplexity_accepts [of graph_snp flc_zero "Kissnp2_init 2 NONE 0 False" Bubble_init]
    by simp
qed

section \<open>Properties of the extension\<close>

lemma extend_NONE:
  "traversalKind ks = NONE \<Longrightarrow>
   extend g tr ks b t =
     Some (True, b\<lparr>where_to_extend := 0, closureLeft := BAD, closureRight := BAD\<rparr>, t)"
  by (simp add: extend_def)

lemma extend_Some_code:
  assumes "extend g tr ks b t = Some (r, b', t')"
  shows "r = True \<and>
     where_to_extend b' =
       (if closureLeft b' \<noteq> BAD then 1 else 0) + (if closureRight b' \<noteq> BAD then 2 else 0)"
  using assms
  by (auto simp: extend_def Let_def split: if_splits Option.bind_splits prod.splits)

lemma nt_int_range: "nt_int n \<noteq> BAD \<and> 0 \<le> nt_int n \<and> nt_int n < 4"
  by (cases n) (simp_all add: BAD_def)

lemma extend_closure_range:
  assumes "extend g tr ks b t = Some (r, b', t')"
  shows "(closureLeft b' = BAD \<or> (0 \<le> closureLeft b' \<and> closureLeft b' < 4)) \<and>
         (closureRight b' = BAD \<or> (0 \<le> closureRight b' \<and> closureRight b' < 4))"
proof (cases "traversalKind ks = NONE")
  case True
  then show ?thesis using assms by (auto simp add: extend_NONE)
next
  case False
  define cl where "cl = (if length (predecessors g (fst (begin_b b))) = 1
      then nt_int (getNT g (predecessors g (fst (begin_b b)) ! 0) 0) else BAD)"
  define cr where "cr = (if length (successors g (fst (end_b b))) = 1
      then nt_int (getNT g (successors g (fst (end_b b)) ! 0) (sizeKmer g - 1)) else BAD)"
  have "closureLeft b' = cl \<and> closureRight b' = cr"
    using assms False
    by (auto simp: extend_def Let_def cl_def cr_def split: Option.bind_splits prod.splits)
  then show ?thesis
    using nt_int_range by (auto simp: cl_def cr_def)
qed

lemma extend_unchecked_agrees:
  assumes "traversalKind ks = NONE \<or>
           (successors g (fst (end_b b)) \<noteq> [] \<and> predecessors g (fst (begin_b b)) \<noteq> [])"
  shows "extend g tr ks b t = Some (extend_unchecked stalePred staleSucc g tr ks b t)"
proof (cases "traversalKind ks = NONE")
  case True
  then show ?thesis
    by (simp add: extend_def extend_unchecked_def)
next
  case False
  with assms obtain s ss p ps where
    n: "successors g (fst (end_b b)) = s # ss" "predecessors g (fst (begin_b b)) = p # ps"
    by (auto simp: neq_Nil_conv)
  show ?thesis
    using False n
    by (simp add: extend_def extend_unchecked_def Let_def at_def element0_def
          split: prod.splits)
qed

lemma extend_Some_domain:
  assumes "extend g tr ks b t = Some r"
  shows "traversalKind ks = NONE \<or>
         (successors g (fst (end_b b)) \<noteq> [] \<and> predecessors g (fst (begin_b b)) \<noteq> [])"
  using assms
  by (auto simp: extend_def Let_def at_def split: if_splits Option.bind_splits)

lemma extend_unchecked_code:
  "fst (extend_unchecked stalePred staleSucc g tr ks b t) = True \<and>
   where_to_extend (fst (snd (extend_unchecked stalePred staleSucc g tr ks b t))) =
     (if closureLeft (fst (snd (extend_unchecked stalePred staleSucc g tr ks b t))) \<noteq> BAD
      then 1 else 0) +
     (if closureRight (fst (snd (extend_unchecked stalePred staleSucc g tr ks b t))) \<noteq> BAD
      then 2 else 0)"
  by (simp add: extend_unchecked_def Let_def split: prod.splits)

text \<open>
  C8. \<open>extend\<close> returns true for every bubble and every traversal kind, also where a
  neighbour vector is empty and its element 0 is whatever node the storage holds
  (\<open>extend_unchecked\<close>, for every such node). With \<open>traversalKind = NONE\<close> the bubble it
  returns is the given one with \<open>where_to_extend = 0\<close> and both closures absent, so the
  extensions are untouched and stay empty. In every case \<open>where_to_extend\<close> is 1 for a left
  closure plus 2 for a right closure, a value in 0..3. Where no empty vector is read,
  that is with NONE or with both neighbour vectors non-empty, the embedding with the
  error value returns the same result, and it returns nothing else.
\<close>

theorem extend_returns_true:
  "fst (extend_unchecked stalePred staleSucc g tr ks b t) = True \<and>
   where_to_extend (fst (snd (extend_unchecked stalePred staleSucc g tr ks b t))) =
     (if closureLeft (fst (snd (extend_unchecked stalePred staleSucc g tr ks b t))) \<noteq> BAD
      then 1 else 0) +
     (if closureRight (fst (snd (extend_unchecked stalePred staleSucc g tr ks b t))) \<noteq> BAD
      then 2 else 0) \<and>
   0 \<le> where_to_extend (fst (snd (extend_unchecked stalePred staleSucc g tr ks b t))) \<and>
   where_to_extend (fst (snd (extend_unchecked stalePred staleSucc g tr ks b t))) \<le> 3 \<and>
   (traversalKind ks = NONE \<longrightarrow>
      extend_unchecked stalePred staleSucc g tr ks b t =
        (True, b\<lparr>where_to_extend := 0, closureLeft := BAD, closureRight := BAD\<rparr>, t)) \<and>
   (traversalKind ks = NONE \<or>
    (successors g (fst (end_b b)) \<noteq> [] \<and> predecessors g (fst (begin_b b)) \<noteq> []) \<longrightarrow>
      extend g tr ks b t = Some (extend_unchecked stalePred staleSucc g tr ks b t)) \<and>
   (\<forall>r. extend g tr ks b t = Some r \<longrightarrow>
      r = extend_unchecked stalePred staleSucc g tr ks b t) \<and>
   (traversalKind ks = NONE \<longrightarrow>
      extend g tr ks b t =
        Some (True, b\<lparr>where_to_extend := 0, closureLeft := BAD, closureRight := BAD\<rparr>, t)) \<and>
   (successors g (fst (end_b b)) \<noteq> [] \<and> predecessors g (fst (begin_b b)) \<noteq> [] \<longrightarrow>
      (\<exists>b' t'. extend g tr ks b t = Some (True, b', t'))) \<and>
   (\<forall>r b' t'. extend g tr ks b t = Some (r, b', t') \<longrightarrow>
      r = True \<and>
      where_to_extend b' =
        (if closureLeft b' \<noteq> BAD then 1 else 0) + (if closureRight b' \<noteq> BAD then 2 else 0) \<and>
      0 \<le> where_to_extend b' \<and> where_to_extend b' \<le> 3)"
proof -
  let ?u = "extend_unchecked stalePred staleSucc g tr ks b t"
  note c = extend_unchecked_code [of stalePred staleSucc g tr ks b t]
  have 1: "fst ?u = True" using c by blast
  have 2: "where_to_extend (fst (snd ?u)) =
     (if closureLeft (fst (snd ?u)) \<noteq> BAD then 1 else 0) +
     (if closureRight (fst (snd ?u)) \<noteq> BAD then 2 else 0)"
    using c by blast
  have 3: "0 \<le> where_to_extend (fst (snd ?u))" "where_to_extend (fst (snd ?u)) \<le> 3"
    unfolding 2 by simp_all
  have 4: "?u = (True, b\<lparr>where_to_extend := 0, closureLeft := BAD, closureRight := BAD\<rparr>, t)"
    if "traversalKind ks = NONE"
    using that by (simp add: extend_unchecked_def)
  have 5: "extend g tr ks b t = Some ?u"
    if "traversalKind ks = NONE \<or>
        (successors g (fst (end_b b)) \<noteq> [] \<and> predecessors g (fst (begin_b b)) \<noteq> [])"
    using that by (rule extend_unchecked_agrees)
  have 6: "r = ?u" if "extend g tr ks b t = Some r" for r
    using 5 [OF extend_Some_domain [OF that]] that by simp
  have 7: "extend g tr ks b t =
        Some (True, b\<lparr>where_to_extend := 0, closureLeft := BAD, closureRight := BAD\<rparr>, t)"
    if "traversalKind ks = NONE"
    using that by (rule extend_NONE)
  have 8: "\<exists>b' t'. extend g tr ks b t = Some (True, b', t')"
    if "successors g (fst (end_b b)) \<noteq> [] \<and> predecessors g (fst (begin_b b)) \<noteq> []"
    using that by (auto simp: extend_def Let_def at_def split: prod.splits)
  have 9: "r = True \<and>
      where_to_extend b' =
        (if closureLeft b' \<noteq> BAD then 1 else 0) + (if closureRight b' \<noteq> BAD then 2 else 0) \<and>
      0 \<le> where_to_extend b' \<and> where_to_extend b' \<le> 3"
    if e: "extend g tr ks b t = Some (r, b', t')" for r b' t'
  proof -
    from extend_Some_code [OF e] have r: "r = True"
      and w: "where_to_extend b' =
        (if closureLeft b' \<noteq> BAD then 1 else 0) + (if closureRight b' \<noteq> BAD then 2 else 0)"
      by simp_all
    from w have "0 \<le> where_to_extend b'" "where_to_extend b' \<le> 3" by simp_all
    with r w show ?thesis by blast
  qed
  show ?thesis
    using 1 2 3 4 5 6 7 8 9 by (intro conjI impI allI) blast+
qed

theorem extend_returns_true_witness:
  "extend graph_snp null_traversal (Kissnp2_init 2 UNITIG 100 False) bubble_snp () = None \<and>
   fst (extend_unchecked Node_sentinel Node_sentinel graph_snp null_traversal
          (Kissnp2_init 2 UNITIG 100 False) bubble_snp ()) = True \<and>
   extend_unchecked Node_sentinel Node_sentinel graph_snp null_traversal
          (Kissnp2_init 2 NONE 100 False) bubble_snp () =
     (True, bubble_snp\<lparr>where_to_extend := 0, closureLeft := BAD, closureRight := BAD\<rparr>, ()) \<and>
   extend graph_snp null_traversal (Kissnp2_init 2 NONE 100 False) bubble_snp () =
     Some (True, bubble_snp\<lparr>where_to_extend := 0, closureLeft := BAD, closureRight := BAD\<rparr>, ()) \<and>
   extend graph_closure null_traversal (Kissnp2_init 2 UNITIG 100 False) bubble_snp () =
     Some (extend_unchecked Node_sentinel Node_sentinel graph_closure null_traversal
             (Kissnp2_init 2 UNITIG 100 False) bubble_snp ()) \<and>
   where_to_extend (fst (snd (extend_unchecked Node_sentinel Node_sentinel graph_closure
      null_traversal (Kissnp2_init 2 UNITIG 100 False) bubble_snp ()))) = 3"
proof -
  have tip: "extend graph_snp null_traversal (Kissnp2_init 2 UNITIG 100 False) bubble_snp () = None"
    by code_simp
  have k: "traversalKind (Kissnp2_init 2 NONE 100 False) = NONE"
    by (simp add: Kissnp2_init_def)
  have n: "successors graph_closure (fst (end_b bubble_snp)) \<noteq> [] \<and>
           predecessors graph_closure (fst (begin_b bubble_snp)) \<noteq> []"
    by code_simp
  have w: "where_to_extend (fst (snd (extend_unchecked Node_sentinel Node_sentinel graph_closure
      null_traversal (Kissnp2_init 2 UNITIG 100 False) bubble_snp ()))) = 3"
    by code_simp
  note a = extend_returns_true [of Node_sentinel Node_sentinel graph_snp null_traversal
             "Kissnp2_init 2 UNITIG 100 False" bubble_snp "()"]
  note b = extend_returns_true [of Node_sentinel Node_sentinel graph_snp null_traversal
             "Kissnp2_init 2 NONE 100 False" bubble_snp "()"]
  note c = extend_returns_true [of Node_sentinel Node_sentinel graph_closure null_traversal
             "Kissnp2_init 2 UNITIG 100 False" bubble_snp "()"]
  have 1: "fst (extend_unchecked Node_sentinel Node_sentinel graph_snp null_traversal
          (Kissnp2_init 2 UNITIG 100 False) bubble_snp ()) = True"
    using a by blast
  have 2: "extend_unchecked Node_sentinel Node_sentinel graph_snp null_traversal
          (Kissnp2_init 2 NONE 100 False) bubble_snp () =
     (True, bubble_snp\<lparr>where_to_extend := 0, closureLeft := BAD, closureRight := BAD\<rparr>, ())"
    using b k by blast
  have 3: "extend graph_snp null_traversal (Kissnp2_init 2 NONE 100 False) bubble_snp () =
     Some (True, bubble_snp\<lparr>where_to_extend := 0, closureLeft := BAD, closureRight := BAD\<rparr>, ())"
    using b k by blast
  have 4: "extend graph_closure null_traversal (Kissnp2_init 2 UNITIG 100 False) bubble_snp () =
     Some (extend_unchecked Node_sentinel Node_sentinel graph_closure null_traversal
             (Kissnp2_init 2 UNITIG 100 False) bubble_snp ())"
    using c n by blast
  show ?thesis
    using tip 1 2 3 4 w by blast
qed

text \<open>
  C9. With a traversal kind other than NONE, \<open>extend\<close> fails (reads element 0 of an
  empty vector) exactly when the successors of \<open>end[0]\<close> or the predecessors of
  \<open>begin[0]\<close> are empty. Whenever both have a first element, whatever their sizes, the
  right extension is what the traversal returns from the first successor after the
  reset, and the left extension is what it returns next from the reverse of the first
  predecessor.
\<close>

theorem extend_element0:
  assumes "traversalKind ks \<noteq> NONE"
  shows "(extend g tr ks b t = None \<longleftrightarrow>
            successors g (fst (end_b b)) = [] \<or> predecessors g (fst (begin_b b)) = []) \<and>
         (\<forall>s ss p ps. successors g (fst (end_b b)) = s # ss \<and>
                       predecessors g (fst (begin_b b)) = p # ps \<longrightarrow>
            (\<exists>b'. extend g tr ks b t =
                     Some (True, b',
                           snd (traverse tr
                                  (snd (traverse tr (reset tr t) s DIR_OUTCOMING (extensionRight b)))
                                  (reverse g p) DIR_OUTCOMING (extensionLeft b))) \<and>
                   extensionRight b' =
                     fst (traverse tr (reset tr t) s DIR_OUTCOMING (extensionRight b)) \<and>
                   extensionLeft b' =
                     fst (traverse tr
                            (snd (traverse tr (reset tr t) s DIR_OUTCOMING (extensionRight b)))
                            (reverse g p) DIR_OUTCOMING (extensionLeft b))))"
  using assms
  by (auto simp: extend_def Let_def at_def split: prod.splits Option.bind_splits)

theorem extend_element0_witness:
  "extend graph_snp null_traversal (Kissnp2_init 2 UNITIG 100 False) bubble_snp () = None \<and>
   extend graph_closure null_traversal (Kissnp2_init 2 UNITIG 100 False) bubble_snp () \<noteq> None"
proof -
  have k: "traversalKind (Kissnp2_init 2 UNITIG 100 False) \<noteq> NONE"
    by (simp add: Kissnp2_init_def)
  have e: "successors graph_snp (fst (end_b bubble_snp)) = []"
    by code_simp
  have n: "successors graph_closure (fst (end_b bubble_snp)) \<noteq> []"
          "predecessors graph_closure (fst (begin_b bubble_snp)) \<noteq> []"
    by code_simp+
  show ?thesis
    using e n
      extend_element0 [OF k, of graph_snp null_traversal bubble_snp "()"]
      extend_element0 [OF k, of graph_closure null_traversal bubble_snp "()"]
    by simp
qed

section \<open>Properties of the emission\<close>

lemma size_t_of_mod: "size_t_of n = n mod 2 ^ 64"
  by (simp add: size_t_of_def unat_of_nat)

lemma written_start: "(buf, 0) = written buf []"
  by (simp add: written_def)

lemma put_written:
  "length pre < length buf \<Longrightarrow> put c (written buf pre) = Some (written buf (pre @ [c]))"
  by (simp add: put_def written_def list_update_append Cons_nth_drop_Suc [symmetric])

lemma for_each_written:
  "(\<forall>x\<in>set xs. rd x = Some (f x)) \<Longrightarrow> length pre + length xs \<le> length buf \<Longrightarrow>
   for_each (\<lambda>x w. rd x \<bind> (\<lambda>c. put c w)) xs (written buf pre) =
     Some (written buf (pre @ map f xs))"
proof (induction xs arbitrary: pre)
  case Nil
  then show ?case by simp
next
  case (Cons x xs)
  have "put (f x) (written buf pre) = Some (written buf (pre @ [f x]))"
    using Cons.prems by (intro put_written) simp
  moreover have "for_each (\<lambda>x w. rd x \<bind> (\<lambda>c. put c w)) xs (written buf (pre @ [f x])) =
     Some (written buf ((pre @ [f x]) @ map f xs))"
    using Cons.prems by (intro Cons.IH) simp_all
  ultimately show ?case using Cons.prems by simp
qed

lemma for_each_put_written:
  "length pre + length xs \<le> length buf \<Longrightarrow>
   for_each (\<lambda>x. put (f x)) xs (written buf pre) = Some (written buf (pre @ map f xs))"
  using for_each_written [of xs "\<lambda>x. Some (f x)" f pre buf] by simp

lemma for_each_at_written:
  "n \<le> length str \<Longrightarrow> length pre + n \<le> length buf \<Longrightarrow>
   for_each (\<lambda>i w. do { c \<leftarrow> at str i; put c w }) [0..<n] (written buf pre) =
     Some (written buf (pre @ take n str))"
proof -
  assume n: "n \<le> length str" and l: "length pre + n \<le> length buf"
  have "map ((!) str) [0..<n] = take n str"
    using n by (intro nth_equalityI) simp_all
  then show ?thesis
    using for_each_written [of "[0..<n]" "at str" "(!) str" pre buf] n l
    by (simp add: at_def)
qed

lemma ext_map: "map (\<lambda>i. h (xs ! i)) [0..<length xs] = map h xs"
  by (intro nth_equalityI) simp_all

lemma bin2NT_at: "0 \<le> c \<Longrightarrow> c < 4 \<Longrightarrow> at_int bin2NT c = Some (bin2NT ! nat c)"
  by (simp add: at_int_def bin2NT_def)

lemma rev_ext_map_Suc:
  "map (\<lambda>i. h (xs ! (length xs - Suc i))) [0..<length xs] = map h (rev xs)"
  by (intro nth_equalityI) (simp_all add: rev_nth)

lemma buildSequence_data:
  assumes i: "sel2 (begin_b b) i = Some nb" "sel2 (end_b b) i = Some ne"
      and k: "0 < sizeKmer g"
      and lb: "length (toString g nb) = sizeKmer g"
      and le: "length (toString g ne) = sizeKmer g"
      and cl: "closureLeft b = BAD \<or> (0 \<le> closureLeft b \<and> closureLeft b < 4)"
      and cr: "closureRight b = BAD \<or> (0 \<le> closureRight b \<and> closureRight b < 4)"
      and buf: "buf = (if length (data seq) <
                    (2 * sizeKmer g - 1) + length (extensionLeft b) + length (extensionRight b)
                     + (if closureLeft b \<noteq> BAD then 1 else 0)
                     + (if closureRight b \<noteq> BAD then 1 else 0) + 1
                  then resize ((2 * sizeKmer g - 1) + length (extensionLeft b) + length (extensionRight b)
                     + (if closureLeft b \<noteq> BAD then 1 else 0)
                     + (if closureRight b \<noteq> BAD then 1 else 0) + 1) (data seq) else data seq)"
  shows "map_option data (buildSequence g ks b i ty seq) =
           Some (fst (written buf
                       (map (\<lambda>n. tolower (ascii (reverse_nt n))) (rev (extensionLeft b)) @
                        (if closureLeft b \<noteq> BAD then [tolower (bin2NT ! nat (closureLeft b))] else []) @
                        take (sizeKmer g - 1) (toString g nb) @
                        toString g ne @
                        (if closureRight b \<noteq> BAD then [tolower (bin2NT ! nat (closureRight b))] else []) @
                        map (\<lambda>n. tolower (ascii n)) (extensionRight b) @
                        [CHR 0x00])))"
proof -
  have lenbuf: "(2 * sizeKmer g - 1) + length (extensionLeft b) + length (extensionRight b)
                     + (if closureLeft b \<noteq> BAD then 1 else 0)
                     + (if closureRight b \<noteq> BAD then 1 else 0) + 1 \<le> length buf"
    unfolding buf by (simp add: resize_def)
  note rw = for_each_put_written for_each_at_written put_written bin2NT_at
      rev_ext_map_Suc [of "\<lambda>n. tolower (ascii (reverse_nt n))" "extensionLeft b"]
      ext_map [of "\<lambda>n. tolower (ascii n)" "extensionRight b"]
  consider (nn) "closureLeft b = BAD" "closureRight b = BAD"
    | (ln) "closureLeft b \<noteq> BAD" "closureRight b = BAD"
    | (nr) "closureLeft b = BAD" "closureRight b \<noteq> BAD"
    | (lr) "closureLeft b \<noteq> BAD" "closureRight b \<noteq> BAD"
    by blast
  then show ?thesis
  proof cases
    case nn
    have fold: "(if length (data seq) <
                    2 * sizeKmer g - 1 + length (extensionLeft b) + length (extensionRight b) + 1
                 then resize (2 * sizeKmer g - 1 + length (extensionLeft b) + length (extensionRight b) + 1)
                        (data seq)
                 else data seq) = buf"
      unfolding buf using nn by simp
    show ?thesis
      unfolding buildSequence_def Let_def
      apply (simp only: nn if_False if_True not_False_eq_True not_True_eq_False simp_thms fold)
      apply (subst written_start)
      using i k lb le cl cr lenbuf nn
      apply (simp add: rw split del: if_split)
      done
  next
    case ln
    have fold: "(if length (data seq) <
                    2 * sizeKmer g - 1 + length (extensionLeft b) + length (extensionRight b) + 1 + 1
                 then resize (2 * sizeKmer g - 1 + length (extensionLeft b) + length (extensionRight b) + 1 + 1)
                        (data seq)
                 else data seq) = buf"
      unfolding buf using ln by simp
    show ?thesis
      unfolding buildSequence_def Let_def
      apply (simp only: ln if_False if_True not_False_eq_True not_True_eq_False simp_thms fold)
      apply (subst written_start)
      using i k lb le cl cr lenbuf ln
      apply (simp add: rw split del: if_split)
      done
  next
    case nr
    have fold: "(if length (data seq) <
                    2 * sizeKmer g - 1 + length (extensionLeft b) + length (extensionRight b) + 1 + 1
                 then resize (2 * sizeKmer g - 1 + length (extensionLeft b) + length (extensionRight b) + 1 + 1)
                        (data seq)
                 else data seq) = buf"
      unfolding buf using nr by simp
    show ?thesis
      unfolding buildSequence_def Let_def
      apply (simp only: nr if_False if_True not_False_eq_True not_True_eq_False simp_thms fold)
      apply (subst written_start)
      using i k lb le cl cr lenbuf nr
      apply (simp add: rw split del: if_split)
      done
  next
    case lr
    have fold: "(if length (data seq) <
                    2 * sizeKmer g - 1 + length (extensionLeft b) + length (extensionRight b) + 1 + 1 + 1
                 then resize (2 * sizeKmer g - 1 + length (extensionLeft b) + length (extensionRight b) + 1 + 1 + 1)
                        (data seq)
                 else data seq) = buf"
      unfolding buf using lr by simp
    show ?thesis
      unfolding buildSequence_def Let_def
      apply (simp only: lr if_False if_True not_False_eq_True not_True_eq_False simp_thms fold)
      apply (subst written_start)
      using i k lb le cl cr lenbuf lr
      apply (simp add: rw split del: if_split)
      done
  qed
qed

lemma tolower_ACTG:
  "tolower (CHR ''A'') = CHR ''a''" "tolower (CHR ''C'') = CHR ''c''"
  "tolower (CHR ''T'') = CHR ''t''" "tolower (CHR ''G'') = CHR ''g''"
  by code_simp+

lemma tolower_ascii: "tolower (ascii n) \<in> set ''actg''"
  by (cases n) (simp_all add: tolower_ACTG)

lemma tolower_bin2NT: "0 \<le> c \<Longrightarrow> c < 4 \<Longrightarrow> tolower (bin2NT ! nat c) \<in> set ''actg''"
proof -
  assume "0 \<le> c" "c < 4"
  then have "c = 0 \<or> c = 1 \<or> c = 2 \<or> c = 3" by arith
  then show ?thesis by (auto simp: bin2NT_def tolower_ACTG)
qed

lemma fst_written: "fst (written buf (xs @ [c])) = xs @ c # drop (Suc (length xs)) buf"
  by (simp add: written_def)

text \<open>
  C6. For a path index 0 or 1, a positive k, node renderings of length k over A, C, G, T
  and closures that are absent or a nucleotide code (as \<open>extend\<close> leaves them, lemma
  \<open>extend_closure_range\<close>),
  \<open>buildSequence\<close> returns a sequence whose bytes before the terminating zero are, left
  to right: the left extension reversed and complemented in lower case, the left closure
  in lower case if present, the first k-1 characters of \<open>begin[i]\<close>, the k characters of
  \<open>end[i]\<close>, the right closure in lower case if present, the right extension in lower
  case. Their number is (2k-1) + |extensionLeft| + |extensionRight| + 1 per closure.
\<close>

theorem buildSequence_layout:
  assumes i: "i < 2"
      and nb: "nb = (if i = 0 then fst (begin_b b) else snd (begin_b b))"
      and ne: "ne = (if i = 0 then fst (end_b b) else snd (end_b b))"
      and k: "0 < sizeKmer g"
      and lb: "length (toString g nb) = sizeKmer g"
      and le: "length (toString g ne) = sizeKmer g"
      and ab: "set (toString g nb) \<subseteq> set ''ACGT''"
      and ae: "set (toString g ne) \<subseteq> set ''ACGT''"
      and cl: "closureLeft b = BAD \<or> (0 \<le> closureLeft b \<and> closureLeft b < 4)"
      and cr: "closureRight b = BAD \<or> (0 \<le> closureRight b \<and> closureRight b < 4)"
      and left: "left = map (\<lambda>n. tolower (ascii (reverse_nt n))) (rev (extensionLeft b)) @
                        (if closureLeft b \<noteq> BAD then [tolower (bin2NT ! nat (closureLeft b))] else [])"
      and right: "right = (if closureRight b \<noteq> BAD then [tolower (bin2NT ! nat (closureRight b))] else []) @
                        map (\<lambda>n. tolower (ascii n)) (extensionRight b)"
  shows "\<exists>s. buildSequence g ks b i ty seq = Some s \<and>
           takeWhile (\<lambda>c. c \<noteq> CHR 0x00) (data s) =
             left @ take (sizeKmer g - 1) (toString g nb) @ toString g ne @ right \<and>
           length (takeWhile (\<lambda>c. c \<noteq> CHR 0x00) (data s)) =
             (2 * sizeKmer g - 1) + length (extensionLeft b) + length (extensionRight b)
               + (if closureLeft b \<noteq> BAD then 1 else 0)
               + (if closureRight b \<noteq> BAD then 1 else 0) \<and>
           set left \<subseteq> set ''actg'' \<and> set right \<subseteq> set ''actg''"
proof -
  define buf where "buf = (if length (data seq) <
                    (2 * sizeKmer g - 1) + length (extensionLeft b) + length (extensionRight b)
                     + (if closureLeft b \<noteq> BAD then 1 else 0)
                     + (if closureRight b \<noteq> BAD then 1 else 0) + 1
                  then resize ((2 * sizeKmer g - 1) + length (extensionLeft b) + length (extensionRight b)
                     + (if closureLeft b \<noteq> BAD then 1 else 0)
                     + (if closureRight b \<noteq> BAD then 1 else 0) + 1) (data seq) else data seq)"
  define layout where
    "layout = left @ take (sizeKmer g - 1) (toString g nb) @ toString g ne @ right"
  have sel: "sel2 (begin_b b) i = Some nb" "sel2 (end_b b) i = Some ne"
    using i nb ne by (auto simp: sel2_def)
  have "map_option data (buildSequence g ks b i ty seq) = Some (fst (written buf (layout @ [CHR 0x00])))"
    using buildSequence_data [OF sel k lb le cl cr buf_def, of ks ty]
    by (simp add: layout_def left right)
  then obtain s where s: "buildSequence g ks b i ty seq = Some s"
      and d: "data s = layout @ CHR 0x00 # drop (Suc (length layout)) buf"
    by (auto simp: fst_written)
  have sl: "set left \<subseteq> set ''actg''"
    unfolding left using cl tolower_ascii tolower_bin2NT [of "closureLeft b"]
    by (auto simp del: set_simps)
  have sr: "set right \<subseteq> set ''actg''"
    unfolding right using cr tolower_ascii tolower_bin2NT [of "closureRight b"]
    by (auto simp del: set_simps)
  have nz: "\<And>c. c \<in> set layout \<Longrightarrow> c \<noteq> CHR 0x00"
  proof -
    fix c assume "c \<in> set layout"
    then have "c \<in> set ''actg'' \<or> c \<in> set ''ACGT''"
      unfolding layout_def using sl sr ab ae by (auto dest: in_set_takeD simp del: set_simps)
    then show "c \<noteq> CHR 0x00" by auto
  qed
  have tw: "takeWhile (\<lambda>c. c \<noteq> CHR 0x00) (data s) = layout"
    unfolding d using nz by (simp add: takeWhile_append2)
  have len: "length layout =
             (2 * sizeKmer g - 1) + length (extensionLeft b) + length (extensionRight b)
               + (if closureLeft b \<noteq> BAD then 1 else 0)
               + (if closureRight b \<noteq> BAD then 1 else 0)"
    using k lb le by (auto simp add: layout_def left right)
  show ?thesis
    using s tw len sl sr unfolding layout_def by simp
qed

theorem buildSequence_layout_witness:
  "\<exists>s. buildSequence graph_closure (Kissnp2_init 2 UNITIG 100 False) bubble_ext 0 ''higher''
          \<lparr>comment = [], data = []\<rparr> = Some s \<and>
        takeWhile (\<lambda>c. c \<noteq> CHR 0x00) (data s) = ''gttCAATCag'' \<and>
        length (takeWhile (\<lambda>c. c \<noteq> CHR 0x00) (data s)) = 10"
proof -
  define nb where "nb = (if (0::nat) = 0 then fst (begin_b bubble_ext) else snd (begin_b bubble_ext))"
  define ne where "ne = (if (0::nat) = 0 then fst (end_b bubble_ext) else snd (end_b bubble_ext))"
  define left where "left = map (\<lambda>n. tolower (ascii (reverse_nt n))) (rev (extensionLeft bubble_ext)) @
      (if closureLeft bubble_ext \<noteq> BAD then [tolower (bin2NT ! nat (closureLeft bubble_ext))] else [])"
  define right where "right =
      (if closureRight bubble_ext \<noteq> BAD then [tolower (bin2NT ! nat (closureRight bubble_ext))] else []) @
      map (\<lambda>n. tolower (ascii n)) (extensionRight bubble_ext)"
  have h1: "(0::nat) < 2" by simp
  have h2: "0 < sizeKmer graph_closure" by code_simp
  have h3: "length (toString graph_closure nb) = sizeKmer graph_closure"
    unfolding nb_def by code_simp
  have h4: "length (toString graph_closure ne) = sizeKmer graph_closure"
    unfolding ne_def by code_simp
  have h5: "set (toString graph_closure nb) \<subseteq> set ''ACGT''"
    unfolding nb_def by code_simp
  have h6: "set (toString graph_closure ne) \<subseteq> set ''ACGT''"
    unfolding ne_def by code_simp
  have h7: "closureLeft bubble_ext = BAD \<or> (0 \<le> closureLeft bubble_ext \<and> closureLeft bubble_ext < 4)"
    by code_simp
  have h8: "closureRight bubble_ext = BAD \<or> (0 \<le> closureRight bubble_ext \<and> closureRight bubble_ext < 4)"
    by code_simp
  have v: "left @ take (sizeKmer graph_closure - 1) (toString graph_closure nb) @
           toString graph_closure ne @ right = ''gttCAATCag''"
    unfolding left_def right_def nb_def ne_def by code_simp
  have l: "(2 * sizeKmer graph_closure - 1) + length (extensionLeft bubble_ext)
             + length (extensionRight bubble_ext)
             + (if closureLeft bubble_ext \<noteq> BAD then 1 else 0)
             + (if closureRight bubble_ext \<noteq> BAD then 1 else 0) = (10::nat)"
    by code_simp
  show ?thesis
    using buildSequence_layout [OF h1 nb_def ne_def h2 h3 h4 h5 h6 h7 h8 left_def right_def,
            of "Kissnp2_init 2 UNITIG 100 False" "''higher''" "\<lparr>comment = [], data = []\<rparr>"]
    unfolding v l by blast
qed

lemma sum_list_bump:
  "i < length xs \<Longrightarrow> sum_list (xs[i := xs ! i + c]) = sum_list xs + (c::64 word)"
  by (induction xs arbitrary: i) (auto simp: nth_Cons' split: nat.splits)

lemma finish_counts:
  assumes "finish g ks b = Some (ks', b')"
  shows "nb_bubbles ks' = nb_bubbles ks + 1 \<and>
         index b' = nb_bubbles ks + 1 \<and>
         nb_bubbles_high ks' = nb_bubbles_high ks + (if score b < threshold ks then 1 else 0) \<and>
         nb_bubbles_low ks' = nb_bubbles_low ks + (if score b < threshold ks then 0 else 1) \<and>
         0 \<le> where_to_extend b \<and> where_to_extend b < 4 \<and>
         nat (where_to_extend b) < length (nb_where_to_extend ks) \<and>
         nb_where_to_extend ks' =
           (nb_where_to_extend ks)
             [nat (where_to_extend b) := nb_where_to_extend ks ! nat (where_to_extend b) + 1]"
  using assms
  by (auto simp: finish_def Let_def split: Option.bind_splits if_splits)

lemma finish_returns:
  assumes k: "0 < sizeKmer g"
      and l: "length (toString g (fst (begin_b b))) = sizeKmer g"
             "length (toString g (snd (begin_b b))) = sizeKmer g"
             "length (toString g (fst (end_b b))) = sizeKmer g"
             "length (toString g (snd (end_b b))) = sizeKmer g"
      and cl: "closureLeft b = BAD \<or> (0 \<le> closureLeft b \<and> closureLeft b < 4)"
      and cr: "closureRight b = BAD \<or> (0 \<le> closureRight b \<and> closureRight b < 4)"
      and w: "0 \<le> where_to_extend b" "where_to_extend b < 4"
             "nat (where_to_extend b) < length (nb_where_to_extend ks)"
  shows "\<exists>ks' b'. finish g ks b = Some (ks', b')"
proof -
  define ks1 where "ks1 = ks\<lparr>nb_bubbles := nb_bubbles ks + 1\<rparr>"
  define b1 where "b1 = b\<lparr>index := nb_bubbles ks1\<rparr>"
  have sel1: "sel2 (begin_b b1) 0 = Some (fst (begin_b b))"
             "sel2 (end_b b1) 0 = Some (fst (end_b b))"
    by (simp_all add: b1_def sel2_def)
  have c1: "closureLeft b1 = BAD \<or> (0 \<le> closureLeft b1 \<and> closureLeft b1 < 4)"
           "closureRight b1 = BAD \<or> (0 \<le> closureRight b1 \<and> closureRight b1 < 4)"
    using cl cr by (simp_all add: b1_def)
  from buildSequence_data [OF sel1 k l(1) l(3) c1 refl, of ks1 "''higher''" "seq1 b1"]
  obtain s1 where s1: "buildSequence g ks1 b1 0 ''higher'' (seq1 b1) = Some s1"
    by blast
  define b2 where "b2 = b1\<lparr>seq1 := s1\<rparr>"
  have sel2: "sel2 (begin_b b2) 1 = Some (snd (begin_b b))"
             "sel2 (end_b b2) 1 = Some (snd (end_b b))"
    by (simp_all add: b1_def b2_def sel2_def)
  have c2: "closureLeft b2 = BAD \<or> (0 \<le> closureLeft b2 \<and> closureLeft b2 < 4)"
           "closureRight b2 = BAD \<or> (0 \<le> closureRight b2 \<and> closureRight b2 < 4)"
    using cl cr by (simp_all add: b1_def b2_def)
  from buildSequence_data [OF sel2 k l(2) l(4) c2 refl, of ks1 "''lower''" "seq2 b2"]
  obtain s2 where s2: "buildSequence g ks1 b2 1 ''lower'' (seq2 b2) = Some s2"
    by blast
  show ?thesis
    unfolding finish_def Let_def
    using s1 s2 w by (simp add: ks1_def b1_def b2_def)
qed

lemma sum4: "length xs = 4 \<Longrightarrow> sum_list xs = xs ! 0 + xs ! 1 + xs ! 2 + xs ! 3 + (0::64 word)"
proof -
  assume "length xs = 4"
  then obtain a b c d where "xs = [a, b, c, d]"
    by (auto simp: length_Suc_conv numeral_eq_Suc)
  then show ?thesis by simp
qed

lemma finish_all_inv:
  assumes "finish_all g ks bs = Some ks'"
      and "nb_bubbles ks = nb_bubbles_high ks + nb_bubbles_low ks"
      and "nb_bubbles ks = sum_list (nb_where_to_extend ks)"
  shows "nb_bubbles ks' = nb_bubbles_high ks' + nb_bubbles_low ks'"
    and "nb_bubbles ks' = sum_list (nb_where_to_extend ks')"
    and "length (nb_where_to_extend ks') = length (nb_where_to_extend ks)"
    and "nb_bubbles ks' = nb_bubbles ks + of_nat (length bs)"
  using assms
proof (induction bs arbitrary: ks)
  case Nil
  case 1 then show ?case by simp
  case 2 then show ?case by simp
  case 3 then show ?case by simp
  case 4 then show ?case by simp
next
  case (Cons b bs)
  {
    fix ks :: Kissnp2
    assume prems: "finish_all g ks (b # bs) = Some ks'"
      "nb_bubbles ks = nb_bubbles_high ks + nb_bubbles_low ks"
      "nb_bubbles ks = sum_list (nb_where_to_extend ks)"
    from prems(1) obtain ks1 b1 where f: "finish g ks b = Some (ks1, b1)"
      and r: "finish_all g ks1 bs = Some ks'"
      by (auto split: option.splits)
    note c = finish_counts [OF f]
    have 0: "nb_bubbles ks1 = nb_bubbles ks + 1"
      using c by simp
    have 1: "nb_bubbles ks1 = nb_bubbles_high ks1 + nb_bubbles_low ks1"
      using c prems(2) by simp
    have 2: "nb_bubbles ks1 = sum_list (nb_where_to_extend ks1)"
      using c prems(3) by (simp add: sum_list_bump)
    have 3: "length (nb_where_to_extend ks1) = length (nb_where_to_extend ks)"
      using c by simp
    note ih = Cons.IH [OF r 1 2]
    have "nb_bubbles ks' = nb_bubbles ks + of_nat (length (b # bs))"
      using ih(4) 0 by simp
    note this ih(1) ih(2) ih(3) [unfolded 3]
  }
  note step = this
  case 1 then show ?case by (rule step(2))
  case 2 then show ?case by (rule step(3))
  case 3 then show ?case by (rule step(4))
  case 4 then show ?case by (rule step(1))
qed

text \<open>
  C10. A call of \<open>finish\<close> that returns has added one to \<open>nb_bubbles\<close>, one to
  \<open>nb_bubbles_high\<close> if the score is below the threshold and to \<open>nb_bubbles_low\<close>
  otherwise, and one to the entry of \<open>nb_where_to_extend\<close> at the bubble's
  \<open>where_to_extend\<close>, which is in 0..3. After any run of such calls from counters at
  zero, \<open>nb_bubbles\<close> is the number of calls, the sum of the high and low counters, and
  the sum of the four entries (all modulo 2^64).
\<close>

theorem finish_counters:
  "(finish g ks b = Some (ks', b') \<longrightarrow>
      nb_bubbles ks' = nb_bubbles ks + 1 \<and>
      nb_bubbles_high ks' = nb_bubbles_high ks + (if score b < threshold ks then 1 else 0) \<and>
      nb_bubbles_low ks' = nb_bubbles_low ks + (if score b < threshold ks then 0 else 1) \<and>
      0 \<le> where_to_extend b \<and> where_to_extend b < 4 \<and>
      nb_where_to_extend ks' =
        (nb_where_to_extend ks)
          [nat (where_to_extend b) := nb_where_to_extend ks ! nat (where_to_extend b) + 1]) \<and>
   (finish_all g (Kissnp2_init ab tk th lw) bs = Some ks'' \<longrightarrow>
      nb_bubbles ks'' = of_nat (length bs) \<and>
      nb_bubbles ks'' = nb_bubbles_high ks'' + nb_bubbles_low ks'' \<and>
      nb_bubbles ks'' =
        nb_where_to_extend ks'' ! 0 + nb_where_to_extend ks'' ! 1 +
        nb_where_to_extend ks'' ! 2 + nb_where_to_extend ks'' ! 3)"
proof (intro conjI impI)
  assume a: "finish_all g (Kissnp2_init ab tk th lw) bs = Some ks''"
  have p: "nb_bubbles (Kissnp2_init ab tk th lw) =
             nb_bubbles_high (Kissnp2_init ab tk th lw) + nb_bubbles_low (Kissnp2_init ab tk th lw)"
          "nb_bubbles (Kissnp2_init ab tk th lw) = sum_list (nb_where_to_extend (Kissnp2_init ab tk th lw))"
    by (simp_all add: Kissnp2_init_def)
  note r = finish_all_inv [OF a p]
  have l4: "length (nb_where_to_extend ks'') = 4"
    using r(3) by (simp add: Kissnp2_init_def)
  show "nb_bubbles ks'' = of_nat (length bs)"
    using r(4) by (simp add: Kissnp2_init_def)
  show "nb_bubbles ks'' = nb_bubbles_high ks'' + nb_bubbles_low ks''"
    by (rule r(1))
  show "nb_bubbles ks'' =
        nb_where_to_extend ks'' ! 0 + nb_where_to_extend ks'' ! 1 +
        nb_where_to_extend ks'' ! 2 + nb_where_to_extend ks'' ! 3"
    using r(2) sum4 [OF l4] by simp
qed (use finish_counts in blast)+

theorem finish_counters_witness:
  "finish graph_closure (Kissnp2_init 2 UNITIG 100 False) bubble_ext \<noteq> None \<and>
   nb_bubbles (fst (the (finish graph_closure (Kissnp2_init 2 UNITIG 100 False) bubble_ext))) = 1 \<and>
   nb_where_to_extend (fst (the (finish graph_closure (Kissnp2_init 2 UNITIG 100 False) bubble_ext)))
     = [0, 0, 0, 1] \<and>
   finish_all graph_closure (Kissnp2_init 2 UNITIG 100 False) [bubble_ext, bubble_snp] \<noteq> None \<and>
   nb_bubbles (the (finish_all graph_closure (Kissnp2_init 2 UNITIG 100 False) [bubble_ext, bubble_snp]))
     = 2"
proof -
  have "finish graph_closure (Kissnp2_init 2 UNITIG 100 False) bubble_ext \<noteq> None"
    by code_simp
  then obtain ks' b' where
    f: "finish graph_closure (Kissnp2_init 2 UNITIG 100 False) bubble_ext = Some (ks', b')"
    by auto
  have "finish_all graph_closure (Kissnp2_init 2 UNITIG 100 False) [bubble_ext, bubble_snp] \<noteq> None"
    by code_simp
  then obtain ks'' where
    a: "finish_all graph_closure (Kissnp2_init 2 UNITIG 100 False) [bubble_ext, bubble_snp] = Some ks''"
    by auto
  have w: "where_to_extend bubble_ext = 3"
    "nb_where_to_extend (Kissnp2_init 2 UNITIG 100 False) = [0, 0, 0, 0]"
    "nb_bubbles (Kissnp2_init 2 UNITIG 100 False) = 0"
    by code_simp+
  show ?thesis
    using finish_counters [of graph_closure "Kissnp2_init 2 UNITIG 100 False" bubble_ext ks' b'
            2 UNITIG 100 False "[bubble_ext, bubble_snp]" ks''] f a w
    by simp
qed

section \<open>Properties of the search\<close>

lemma expand_trace_erase:
  "map_option fst (expand_trace g flc tr pos st n1 n2 p1 p2 trail lg) =
     expand g flc tr pos st n1 n2 p1 p2"
  "map_option fst (expand_loop_trace g flc tr pos succs st n1 n2 p1 p2 trail lg) =
     expand_loop g flc tr pos succs st n1 n2 p1 p2"
proof (induction g flc tr pos st n1 n2 p1 p2 trail lg
         and g flc tr pos succs st n1 n2 p1 p2 trail lg
       rule: expand_trace_expand_loop_trace.induct)
  case (1 g flc tr pos st node1 node2 previousNode1 previousNode2 trail lg)
  then show ?case
    by (simp add: expand_trace.simps expand.simps)
next
  case (2 g flc tr pos st node1 node2 previousNode1 previousNode2 trail lg)
  then show ?case
    by (simp add: expand_loop_trace.simps expand_loop.simps)
next
  case (3 g flc tr pos nx rest st node1 node2 previousNode1 previousNode2 trail lg)
  show ?case
    apply (subst expand_loop_trace.simps)
    apply (subst expand_loop.simps)
    using 3
    apply (auto split: option.splits)
    done
qed

lemma finish_keeps:
  assumes "finish g ks b = Some (ks', b')"
  shows "authorised_branching ks' = authorised_branching ks"
    and "traversalKind ks' = traversalKind ks"
    and "threshold ks' = threshold ks"
    and "low ks' = low ks"
    and "begin_b b' = begin_b b"
    and "end_b b' = end_b b"
    and "length (outputBank ks') = length (outputBank ks) + 2"
  using assms
  by (auto simp: finish_def Let_def split: Option.bind_splits if_splits)

lemma extend_keeps:
  assumes "extend g tr ks b t = Some (r, b', t')"
  shows "begin_b b' = begin_b b" and "end_b b' = end_b b"
  using assms
  by (auto simp: extend_def Let_def split: Option.bind_splits if_splits prod.splits)

lemma checkLowComplexity_keeps:
  "begin_b (snd (checkLowComplexity g flc ks b)) = begin_b b"
  "end_b (snd (checkLowComplexity g flc ks b)) = end_b b"
  by (simp_all add: checkLowComplexity_def Let_def)

lemma expand_terminal_cases:
  assumes "expand_terminal g flc tr st a b = Some st'"
  shows "(finish_argument g flc tr st a b = None \<and> tool st' = tool st \<and>
          begin_b (bubble st') = begin_b (bubble st)) \<or>
         (\<exists>b3 b4. finish_argument g flc tr st a b = Some b3 \<and>
                   finish g (tool st) b3 = Some (tool st', b4) \<and> bubble st' = b4 \<and>
                   begin_b b3 = begin_b (bubble st) \<and> end_b b3 = (a, b) \<and>
                   checkPath g b3)"
proof -
  define b1 where "b1 = (bubble st)\<lparr>end_b := (a, b)\<rparr>"
  show ?thesis
  proof (cases "checkPath g b1")
    case False
    then show ?thesis
      using assms by (auto simp: expand_terminal_def finish_argument_def Let_def b1_def)
  next
    case cp: True
    obtain ok b2 where c: "checkLowComplexity g flc (tool st) b1 = (ok, b2)"
      by (cases "checkLowComplexity g flc (tool st) b1")
    have b2: "begin_b b2 = begin_b (bubble st)" "end_b b2 = (a, b)"
      using checkLowComplexity_keeps [of g flc "tool st" b1] c by (simp_all add: b1_def)
    show ?thesis
    proof (cases ok)
      case False
      then show ?thesis
        using assms cp c b2
        by (auto simp: expand_terminal_def finish_argument_def Let_def b1_def)
    next
      case True
      from assms cp c True obtain r b3 t3 where
        e: "extend g tr (tool st) b2 (travState st) = Some (r, b3, t3)"
        by (auto simp: expand_terminal_def Let_def b1_def split: Option.bind_splits)
      have r: "r = True" using extend_Some_code [OF e] by simp
      note k = extend_keeps [OF e]
      from assms cp c True e r obtain ks' b4 where
        f: "finish g (tool st) b3 = Some (ks', b4)"
        and st': "st' = st\<lparr>tool := ks', bubble := b4, travState := t3\<rparr>"
        by (auto simp: expand_terminal_def Let_def b1_def split: Option.bind_splits)
      have fa: "finish_argument g flc tr st a b = Some b3"
        using cp c True e r by (simp add: finish_argument_def Let_def b1_def)
      have "checkPath g b3"
        using cp k b2 by (simp add: checkPath_def b1_def)
      then show ?thesis
        using fa f st' k b2 by simp
    qed
  qed
qed

lemma expand_terminal_keeps:
  assumes "expand_terminal g flc tr st a b = Some st'"
  shows "authorised_branching (tool st') = authorised_branching (tool st)"
    and "begin_b (bubble st') = begin_b (bubble st)"
proof -
  from expand_terminal_cases [OF assms]
  consider "tool st' = tool st" "begin_b (bubble st') = begin_b (bubble st)"
    | b3 b4 where "finish g (tool st) b3 = Some (tool st', b4)" "bubble st' = b4"
        "begin_b b3 = begin_b (bubble st)"
    by blast
  then have "authorised_branching (tool st') = authorised_branching (tool st) \<and>
             begin_b (bubble st') = begin_b (bubble st)"
  proof cases
    case 1
    then show ?thesis by simp
  next
    case 2
    from finish_keeps(1,5) [OF 2(1)] 2(2,3) show ?thesis by simp
  qed
  then show "authorised_branching (tool st') = authorised_branching (tool st)"
    and "begin_b (bubble st') = begin_b (bubble st)" by simp_all
qed

lemma expand_keeps_aux:
  "(\<forall>st'. expand g flc tr pos st n1 n2 p1 p2 = Some st' \<longrightarrow>
      authorised_branching (tool st') = authorised_branching (tool st) \<and>
      begin_b (bubble st') = begin_b (bubble st))"
  "(\<forall>st'. expand_loop g flc tr pos succs st n1 n2 p1 p2 = Some st' \<longrightarrow>
      authorised_branching (tool st') = authorised_branching (tool st) \<and>
      begin_b (bubble st') = begin_b (bubble st))"
proof (induction g flc tr pos st n1 n2 p1 p2 and g flc tr pos succs st n1 n2 p1 p2
       rule: expand_expand_loop.induct)
  case (1 g flc tr pos st node1 node2 previousNode1 previousNode2)
  show ?case
  proof (intro allI impI)
    fix st' assume a: "expand g flc tr pos st node1 node2 previousNode1 previousNode2 = Some st'"
    show "authorised_branching (tool st') = authorised_branching (tool st) \<and>
          begin_b (bubble st') = begin_b (bubble st)"
    proof (cases "checkBranching g (tool st) node1 node2")
      case False
      then show ?thesis using a by (subst (asm) expand.simps) (simp split: if_splits)
    next
      case True
      have le: "pos \<le> sizeKmer g - 1"
        using a by (subst (asm) expand.simps) (simp split: if_splits)
      then have "expand_loop g flc tr pos (successors_pair g node1 node2) st
             node1 node2 previousNode1 previousNode2 = Some st'"
        using a True by (subst (asm) expand.simps) simp
      then show ?thesis using 1 le True by blast
    qed
  qed
next
  case (2 g flc tr pos st node1 node2 previousNode1 previousNode2)
  then show ?case by (simp add: expand_loop.simps)
next
  case (3 g flc tr pos nx rest st node1 node2 previousNode1 previousNode2)
  let ?guard = "checkNodesDiff previousNode1 node1 (fst nx) \<and>
                checkNodesDiff previousNode2 node2 (snd nx)"
  show ?case
  proof (intro allI impI)
    fix st'
    assume a: "expand_loop g flc tr pos (nx # rest) st node1 node2 previousNode1 previousNode2
                 = Some st'"
    show "authorised_branching (tool st') = authorised_branching (tool st) \<and>
          begin_b (bubble st') = begin_b (bubble st)"
    proof (cases ?guard)
      case False
      then have "expand_loop g flc tr pos rest st node1 node2 previousNode1 previousNode2 = Some st'"
        using a by (subst (asm) expand_loop.simps) simp
      then show ?thesis using 3(1) False by blast
    next
      case g: True
      show ?thesis
      proof (cases "pos < sizeKmer g - 1")
        case lt: True
        from a g lt obtain st1 where
          e: "expand g flc tr (pos + 1) st (fst nx) (snd nx) node1 node2 = Some st1"
          and r: "(if authorised_branching (tool st1) = 0 \<or> authorised_branching (tool st1) = 1
                   then Some st1
                   else expand_loop g flc tr pos rest st1 node1 node2 previousNode1 previousNode2)
                  = Some st'"
          by (subst (asm) expand_loop.simps) (simp split: option.splits)
        have k1: "authorised_branching (tool st1) = authorised_branching (tool st) \<and>
                  begin_b (bubble st1) = begin_b (bubble st)"
          using 3(2) g lt e by blast
        show ?thesis
        proof (cases "authorised_branching (tool st1) = 0 \<or> authorised_branching (tool st1) = 1")
          case True
          then show ?thesis using r k1 by simp
        next
          case False
          then have "expand_loop g flc tr pos rest st1 node1 node2 previousNode1 previousNode2
                     = Some st'"
            using r by simp
          then have "authorised_branching (tool st') = authorised_branching (tool st1) \<and>
                     begin_b (bubble st') = begin_b (bubble st1)"
            using 3(3) g lt e False by blast
          then show ?thesis using k1 by simp
        qed
      next
        case nlt: False
        show ?thesis
        proof (cases "checkBranching g (tool st) (fst nx) (snd nx)")
          case False
          then show ?thesis
            using a g nlt by (subst (asm) expand_loop.simps) simp
        next
          case cb: True
          from a g nlt cb obtain st1 where
            e: "expand_terminal g flc tr st (fst nx) (snd nx) = Some st1"
            and r: "expand_loop g flc tr pos rest st1 node1 node2 previousNode1 previousNode2
                    = Some st'"
            by (subst (asm) expand_loop.simps) (simp split: option.splits)
          have "authorised_branching (tool st') = authorised_branching (tool st1) \<and>
                begin_b (bubble st') = begin_b (bubble st1)"
            using 3(4) g nlt cb e r by blast
          then show ?thesis
            using expand_terminal_keeps [OF e] by simp
        qed
      qed
    qed
  qed
qed

lemma expand_keeps:
  assumes "expand g flc tr pos st n1 n2 p1 p2 = Some st'"
  shows "authorised_branching (tool st') = authorised_branching (tool st)"
    and "begin_b (bubble st') = begin_b (bubble st)"
  using assms expand_keeps_aux(1) [of g flc tr pos st n1 n2 p1 p2] by simp_all

lemma expand_loop_first_survivor:
  assumes "authorised_branching (tool st) = 0 \<or> authorised_branching (tool st) = 1"
      and "pos < sizeKmer g - 1"
  shows "expand_loop g flc tr pos succs st n1 n2 p1 p2 =
     (case find (\<lambda>nx. checkNodesDiff p1 n1 (fst nx) \<and> checkNodesDiff p2 n2 (snd nx)) succs of
        None \<Rightarrow> Some st
      | Some nx \<Rightarrow> expand g flc tr (pos + 1) st (fst nx) (snd nx) n1 n2)"
proof (induction succs)
  case Nil
  then show ?case by (simp add: expand_loop.simps)
next
  case (Cons nx rest)
  show ?case
  proof (cases "checkNodesDiff p1 n1 (fst nx) \<and> checkNodesDiff p2 n2 (snd nx)")
    case False
    then show ?thesis
      using Cons by (subst expand_loop.simps) auto
  next
    case True
    show ?thesis
    proof (cases "expand g flc tr (pos + 1) st (fst nx) (snd nx) n1 n2")
      case None
      then show ?thesis
        using True assms(2) by (subst expand_loop.simps) simp
    next
      case (Some st')
      from expand_keeps(1) [OF Some] assms(1)
      have "authorised_branching (tool st') = 0 \<or> authorised_branching (tool st') = 1"
        by simp
      then show ?thesis
        using True assms(2) Some by (subst expand_loop.simps) auto
    qed
  qed
qed

text \<open>
  C3. With policy 0 or 1 and \<open>pos < k-1\<close>, a call of \<open>expand\<close> whose branching gate
  passes is one recursive call, on the first joint successor pair that passes the
  node-difference guard, and its result is the result of that call: the pairs after it
  are not visited, the pairs before it were skipped. Without such a pair, and when the
  gate fails, the state comes back unchanged.
\<close>

theorem expand_first_survivor:
  assumes "authorised_branching (tool st) = 0 \<or> authorised_branching (tool st) = 1"
      and "pos < sizeKmer g - 1"
  shows "expand g flc tr pos st node1 node2 previousNode1 previousNode2 =
     (if \<not> checkBranching g (tool st) node1 node2 then Some st
      else case find (\<lambda>nx. checkNodesDiff previousNode1 node1 (fst nx) \<and>
                            checkNodesDiff previousNode2 node2 (snd nx))
                     (successors_pair g node1 node2) of
        None \<Rightarrow> Some st
      | Some nx \<Rightarrow> expand g flc tr (pos + 1) st (fst nx) (snd nx) node1 node2)"
  using assms(2) expand_loop_first_survivor [OF assms]
  by (subst expand.simps) simp

theorem expand_first_survivor_witness:
  "expand graph_snp flc_zero null_traversal 1 (finder_snp 1)
     (dbg_node ''CAA'') (dbg_node ''CAT'') Node_sentinel Node_sentinel =
   expand graph_snp flc_zero null_traversal (1 + 1) (finder_snp 1)
     (dbg_node ''AAT'') (dbg_node ''ATT'') (dbg_node ''CAA'') (dbg_node ''CAT'')"
proof -
  have h1: "authorised_branching (tool (finder_snp 1)) = 0 \<or>
            authorised_branching (tool (finder_snp 1)) = 1"
    by code_simp
  have h2: "1 < sizeKmer graph_snp - 1"
    by code_simp
  have cb: "checkBranching graph_snp (tool (finder_snp 1)) (dbg_node ''CAA'') (dbg_node ''CAT'')"
    by code_simp
  have f: "find (\<lambda>nx. checkNodesDiff Node_sentinel (dbg_node ''CAA'') (fst nx) \<and>
                       checkNodesDiff Node_sentinel (dbg_node ''CAT'') (snd nx))
             (successors_pair graph_snp (dbg_node ''CAA'') (dbg_node ''CAT''))
           = Some (dbg_node ''AAT'', dbg_node ''ATT'')"
    by code_simp
  show ?thesis
    using expand_first_survivor [OF h1 h2, of flc_zero null_traversal
            "dbg_node ''CAA''" "dbg_node ''CAT''" Node_sentinel Node_sentinel] cb f
    by simp
qed

text \<open>
  C4. At the terminal step (\<open>pos\<close> not below \<open>k-1\<close>), when a pair passes the
  node-difference guard and the branching gate rejects it, the loop ends there with the
  state as it is: the result does not depend on the pairs that remain.
\<close>

theorem expand_terminal_gate_returns:
  assumes "\<not> pos < sizeKmer g - 1"
      and "checkNodesDiff previousNode1 node1 (fst nx) \<and>
           checkNodesDiff previousNode2 node2 (snd nx)"
      and "\<not> checkBranching g (tool st) (fst nx) (snd nx)"
  shows "expand_loop g flc tr pos (nx # rest) st node1 node2 previousNode1 previousNode2 = Some st"
  using assms by (subst expand_loop.simps) simp

theorem expand_terminal_gate_returns_witness:
  "expand_loop graph_snp flc_zero null_traversal 2
     [(dbg_node ''ATC'', dbg_node ''TTC''), (dbg_node ''ATG'', dbg_node ''TTG'')]
     (finder_snp 0) (dbg_node ''AAT'') (dbg_node ''ATT'') (dbg_node ''CAA'') (dbg_node ''CAT'')
   = Some (finder_snp 0)"
proof -
  have h1: "\<not> 2 < sizeKmer graph_snp - 1"
    by code_simp
  have h2: "checkNodesDiff (dbg_node ''CAA'') (dbg_node ''AAT'')
              (fst (dbg_node ''ATC'', dbg_node ''TTC'')) \<and>
            checkNodesDiff (dbg_node ''CAT'') (dbg_node ''ATT'')
              (snd (dbg_node ''ATC'', dbg_node ''TTC''))"
    by code_simp
  have h3: "\<not> checkBranching graph_snp (tool (finder_snp 0))
              (fst (dbg_node ''ATC'', dbg_node ''TTC'')) (snd (dbg_node ''ATC'', dbg_node ''TTC''))"
    by code_simp
  show ?thesis
    by (rule expand_terminal_gate_returns [OF h1 h2 h3])
qed

lemma trace_grows_refl: "trace_grows g pos trail st lg st lg"
  by (simp add: trace_grows_def)

lemma trace_grows_trans:
  assumes "trace_grows g pos trail st lg st1 lg1" and "trace_grows g pos trail st1 lg1 st2 lg2"
  shows "trace_grows g pos trail st lg st2 lg2"
proof -
  from assms(1) obtain n1 where 1: "begin_b (bubble st1) = begin_b (bubble st)" "lg1 = lg @ n1"
    "length (outputBank (tool st1)) = length (outputBank (tool st)) + 2 * length n1"
    "list_all (entry_ok g pos trail (begin_b (bubble st))) n1"
    unfolding trace_grows_def by blast
  from assms(2) obtain n2 where 2: "begin_b (bubble st2) = begin_b (bubble st1)" "lg2 = lg1 @ n2"
    "length (outputBank (tool st2)) = length (outputBank (tool st1)) + 2 * length n2"
    "list_all (entry_ok g pos trail (begin_b (bubble st1))) n2"
    unfolding trace_grows_def by blast
  have "lg2 = lg @ (n1 @ n2)" using 1 2 by simp
  moreover have "length (outputBank (tool st2)) = length (outputBank (tool st)) + 2 * length (n1 @ n2)"
    using 1 2 by simp
  moreover have "list_all (entry_ok g pos trail (begin_b (bubble st))) (n1 @ n2)"
    using 1 2 by simp
  ultimately show ?thesis
    unfolding trace_grows_def using 1(1) 2(1) by (intro conjI exI [of _ "n1 @ n2"]) simp_all
qed

lemma entry_ok_step:
  assumes t: "trail \<noteq> []" "last trail = (n1, n2)"
      and g: "checkNodesDiff p1 n1 (fst nx) \<and> checkNodesDiff p2 n2 (snd nx)"
      and lt: "pos < sizeKmer g - 1"
      and e: "entry_ok g (pos + 1) (trail @ [nx]) bb e"
  shows "entry_ok g pos trail bb e"
proof -
  obtain b t where bt: "e = (b, t)" by (cases e)
  from e bt have tk: "take (Suc (length trail)) t = trail @ [nx]"
    and len: "length t = Suc (length trail) + (sizeKmer g - (pos + 1))"
    and sd: "steps_differ nx (drop (Suc (length trail)) t)"
    and rest: "checkPath g b" "begin_b b = bb" "end_b b = last t"
    by (simp_all add: entry_ok_def)
  have t_eq: "t = trail @ nx # drop (Suc (length trail)) t"
    using append_take_drop_id [of "Suc (length trail)" t] tk by simp
  have 1: "take (length trail) t = trail"
    by (subst t_eq) simp
  have 2: "drop (length trail) t = nx # drop (Suc (length trail)) t"
    by (subst t_eq) simp
  have 3: "length t = length trail + (sizeKmer g - pos)"
    using len lt by simp
  have 4: "steps_differ (last trail) (drop (length trail) t)"
    unfolding 2 using sd g t(2) by (simp add: checkNodesDiff_def)
  show ?thesis
    using 1 3 4 rest bt by (simp add: entry_ok_def)
qed

lemma trace_grows_step:
  assumes t: "trail \<noteq> []" "last trail = (n1, n2)"
      and g: "checkNodesDiff p1 n1 (fst nx) \<and> checkNodesDiff p2 n2 (snd nx)"
      and lt: "pos < sizeKmer g - 1"
      and tg: "trace_grows g (pos + 1) (trail @ [nx]) st lg st' lg'"
  shows "trace_grows g pos trail st lg st' lg'"
proof -
  from tg obtain new where n: "begin_b (bubble st') = begin_b (bubble st)" "lg' = lg @ new"
    "length (outputBank (tool st')) = length (outputBank (tool st)) + 2 * length new"
    "list_all (entry_ok g (pos + 1) (trail @ [nx]) (begin_b (bubble st))) new"
    unfolding trace_grows_def by blast
  have "list_all (entry_ok g pos trail (begin_b (bubble st))) new"
    using n(4) entry_ok_step [OF t g lt] by (simp add: list_all_iff)
  then show ?thesis
    unfolding trace_grows_def using n by blast
qed

lemma trace_grows_terminal:
  assumes t: "trail \<noteq> []" "last trail = (n1, n2)"
      and g: "checkNodesDiff p1 n1 (fst nx) \<and> checkNodesDiff p2 n2 (snd nx)"
      and pos: "1 \<le> pos" "pos \<le> sizeKmer g - 1" "\<not> pos < sizeKmer g - 1"
      and e: "expand_terminal g flc tr st (fst nx) (snd nx) = Some st'"
  shows "trace_grows g pos trail st lg st'
           (case finish_argument g flc tr st (fst nx) (snd nx) of
              None \<Rightarrow> lg | Some b \<Rightarrow> lg @ [(b, trail @ [nx])])"
proof -
  from expand_terminal_cases [OF e]
  consider (none) "finish_argument g flc tr st (fst nx) (snd nx) = None" "tool st' = tool st"
      "begin_b (bubble st') = begin_b (bubble st)"
    | (some) b3 b4 where "finish_argument g flc tr st (fst nx) (snd nx) = Some b3"
        "finish g (tool st) b3 = Some (tool st', b4)" "bubble st' = b4"
        "begin_b b3 = begin_b (bubble st)" "end_b b3 = (fst nx, snd nx)" "checkPath g b3"
    by (elim disjE conjE exE) auto
  then show ?thesis
  proof cases
    case none
    then show ?thesis by (simp add: trace_grows_def)
  next
    case some
    have k: "sizeKmer g - pos = 1" using pos by simp
    have ok: "entry_ok g pos trail (begin_b (bubble st)) (b3, trail @ [nx])"
      using some(4,5,6) g t(2) k by (simp add: entry_ok_def checkNodesDiff_def)
    note fk = finish_keeps(5,7) [OF some(2)]
    show ?thesis
      unfolding trace_grows_def some(1) option.case
      using ok fk some(3,4) by (intro conjI exI [of _ "[(b3, trail @ [nx])]"]) simp_all
  qed
qed

lemma expand_trace_grows_aux:
  "(\<forall>st' lg'. trail \<noteq> [] \<longrightarrow> last trail = (n1, n2) \<longrightarrow> 1 \<le> pos \<longrightarrow>
      expand_trace g flc tr pos st n1 n2 p1 p2 trail lg = Some (st', lg') \<longrightarrow>
      trace_grows g pos trail st lg st' lg')"
  "(\<forall>st' lg'. trail \<noteq> [] \<longrightarrow> last trail = (n1, n2) \<longrightarrow> 1 \<le> pos \<longrightarrow> pos \<le> sizeKmer g - 1 \<longrightarrow>
      expand_loop_trace g flc tr pos succs st n1 n2 p1 p2 trail lg = Some (st', lg') \<longrightarrow>
      trace_grows g pos trail st lg st' lg')"
proof (induction g flc tr pos st n1 n2 p1 p2 trail lg and g flc tr pos succs st n1 n2 p1 p2 trail lg
       rule: expand_trace_expand_loop_trace.induct)
  case (1 g flc tr pos st node1 node2 previousNode1 previousNode2 trail lg)
  show ?case
  proof (intro allI impI)
    fix st' lg'
    assume t: "trail \<noteq> []" "last trail = (node1, node2)" "1 \<le> pos"
      and a: "expand_trace g flc tr pos st node1 node2 previousNode1 previousNode2 trail lg
                = Some (st', lg')"
    have le: "pos \<le> sizeKmer g - 1"
      using a by (subst (asm) expand_trace.simps) (simp split: if_splits)
    show "trace_grows g pos trail st lg st' lg'"
    proof (cases "checkBranching g (tool st) node1 node2")
      case False
      then have "st' = st \<and> lg' = lg"
        using a le by (subst (asm) expand_trace.simps) simp
      then show ?thesis by (simp add: trace_grows_refl)
    next
      case True
      have "expand_loop_trace g flc tr pos (successors_pair g node1 node2) st
             node1 node2 previousNode1 previousNode2 trail lg = Some (st', lg')"
        using a le True by (subst (asm) expand_trace.simps) simp
      then show ?thesis using 1 le True t by blast
    qed
  qed
next
  case (2 g flc tr pos st node1 node2 previousNode1 previousNode2 trail lg)
  show ?case by (simp add: expand_loop_trace.simps trace_grows_refl)
next
  case (3 g flc tr pos nx rest st node1 node2 previousNode1 previousNode2 trail lg)
  let ?guard = "checkNodesDiff previousNode1 node1 (fst nx) \<and>
                checkNodesDiff previousNode2 node2 (snd nx)"
  show ?case
  proof (intro allI impI)
    fix st' lg'
    assume t: "trail \<noteq> []" "last trail = (node1, node2)"
      and p: "1 \<le> pos" "pos \<le> sizeKmer g - 1"
      and a: "expand_loop_trace g flc tr pos (nx # rest) st node1 node2
                previousNode1 previousNode2 trail lg = Some (st', lg')"
    show "trace_grows g pos trail st lg st' lg'"
    proof (cases ?guard)
      case False
      then have "expand_loop_trace g flc tr pos rest st node1 node2
                   previousNode1 previousNode2 trail lg = Some (st', lg')"
        using a by (subst (asm) expand_loop_trace.simps) simp
      then show ?thesis using 3(1) False t p by blast
    next
      case g: True
      show ?thesis
      proof (cases "pos < sizeKmer g - 1")
        case lt: True
        from a g lt obtain st1 lg1 where
          e: "expand_trace g flc tr (pos + 1) st (fst nx) (snd nx) node1 node2 (trail @ [nx]) lg
                = Some (st1, lg1)"
          and r: "(if authorised_branching (tool st1) = 0 \<or> authorised_branching (tool st1) = 1
                   then Some (st1, lg1)
                   else expand_loop_trace g flc tr pos rest st1 node1 node2
                          previousNode1 previousNode2 trail lg1) = Some (st', lg')"
          by (subst (asm) expand_loop_trace.simps) (auto split: option.splits)
        have t1: "trail @ [nx] \<noteq> []" "last (trail @ [nx]) = (fst nx, snd nx)" "1 \<le> pos + 1"
          by simp_all
        have "trace_grows g (pos + 1) (trail @ [nx]) st lg st1 lg1"
          using 3(2) g lt e t1 by blast
        then have k1: "trace_grows g pos trail st lg st1 lg1"
          using trace_grows_step [OF t g lt] by blast
        show ?thesis
        proof (cases "authorised_branching (tool st1) = 0 \<or> authorised_branching (tool st1) = 1")
          case True
          then have "st' = st1 \<and> lg' = lg1" using r by simp
          then show ?thesis using k1 by simp
        next
          case False
          then have "expand_loop_trace g flc tr pos rest st1 node1 node2
                       previousNode1 previousNode2 trail lg1 = Some (st', lg')"
            using r by simp
          then have "trace_grows g pos trail st1 lg1 st' lg'"
            using 3(3) [OF _ lt e refl False] g t p by blast
          then show ?thesis using k1 trace_grows_trans by blast
        qed
      next
        case nlt: False
        show ?thesis
        proof (cases "checkBranching g (tool st) (fst nx) (snd nx)")
          case False
          then have "st' = st \<and> lg' = lg"
            using a g nlt by (subst (asm) expand_loop_trace.simps) simp
          then show ?thesis by (simp add: trace_grows_refl)
        next
          case cb: True
          let ?lg1 = "case finish_argument g flc tr st (fst nx) (snd nx) of
                        None \<Rightarrow> lg | Some b \<Rightarrow> lg @ [(b, trail @ [nx])]"
          from a g nlt cb obtain st1 where
            e: "expand_terminal g flc tr st (fst nx) (snd nx) = Some st1"
            and r: "expand_loop_trace g flc tr pos rest st1 node1 node2
                      previousNode1 previousNode2 trail ?lg1 = Some (st', lg')"
            by (subst (asm) expand_loop_trace.simps) (simp split: option.splits)
          have k1: "trace_grows g pos trail st lg st1 ?lg1"
            by (rule trace_grows_terminal [OF t g p nlt e])
          have "trace_grows g pos trail st1 ?lg1 st' lg'"
            using 3(4) g nlt cb e r t p by blast
          then show ?thesis using k1 trace_grows_trans by blast
        qed
      qed
    qed
  qed
qed

lemma steps_differ_nth:
  "steps_differ x xs \<Longrightarrow> i < length xs \<Longrightarrow>
   kmer (fst (xs ! i)) \<noteq> kmer (fst ((x # xs) ! i)) \<and>
   kmer (snd (xs ! i)) \<noteq> kmer (snd ((x # xs) ! i))"
proof (induction xs arbitrary: x i)
  case Nil
  then show ?case by simp
next
  case (Cons y ys)
  show ?case
  proof (cases i)
    case 0
    then show ?thesis using Cons.prems by simp
  next
    case (Suc j)
    then show ?thesis using Cons.prems Cons.IH [of y j] by simp
  qed
qed

lemma expand_trace_Some_pos:
  "expand_trace g flc tr pos st n1 n2 p1 p2 trail lg = Some r \<Longrightarrow> pos \<le> sizeKmer g - 1"
  by (subst (asm) expand_trace.simps) (simp split: if_splits)

lemma expand_trace_top:
  assumes "expand_trace g flc tr 1 st node1 node2 previousNode1 previousNode2 [(node1, node2)] []
             = Some (st', lg)"
  shows "length (outputBank (tool st')) = length (outputBank (tool st)) + 2 * length lg"
    and "list_all (entry_ok g 1 [(node1, node2)] (begin_b (bubble st))) lg"
    and "2 \<le> sizeKmer g"
proof -
  have "trace_grows g 1 [(node1, node2)] st [] st' lg"
    using expand_trace_grows_aux(1) [of "[(node1, node2)]" node1 node2 1 g flc tr st
            previousNode1 previousNode2 "[]"] assms
    by simp
  then show "length (outputBank (tool st')) = length (outputBank (tool st)) + 2 * length lg"
    and "list_all (entry_ok g 1 [(node1, node2)] (begin_b (bubble st))) lg"
    by (simp_all add: trace_grows_def)
  show "2 \<le> sizeKmer g"
    using expand_trace_Some_pos [OF assms] by simp
qed

text \<open>
  C2 (as amended). For every bubble passed to \<open>finish\<close> below the call
  \<open>expand(1, node1, node2, ...)\<close>, the trail of its two paths has k pairs, starts with
  (node1, node2), ends with the bubble's end nodes, and at each position p in [1, k-1]
  the node of each path differs, as a k-mer, from its predecessor on the same path.
\<close>

theorem expand_trace_steps_differ:
  assumes "expand_trace g flc tr 1 st node1 node2 previousNode1 previousNode2 [(node1, node2)] []
             = Some (st', lg)"
      and "(b, t) \<in> set lg"
  shows "length t = sizeKmer g \<and> t ! 0 = (node1, node2) \<and> last t = end_b b \<and>
         (\<forall>p. 1 \<le> p \<and> p \<le> sizeKmer g - 1 \<longrightarrow>
            kmer (fst (t ! p)) \<noteq> kmer (fst (t ! (p - 1))) \<and>
            kmer (snd (t ! p)) \<noteq> kmer (snd (t ! (p - 1))))"
proof -
  note top = expand_trace_top [OF assms(1)]
  have ok: "entry_ok g 1 [(node1, node2)] (begin_b (bubble st)) (b, t)"
    using top(2) assms(2) by (auto simp: list_all_iff)
  then have tk: "take 1 t = [(node1, node2)]" and len: "length t = 1 + (sizeKmer g - 1)"
    and sd: "steps_differ (node1, node2) (drop 1 t)" and e: "end_b b = last t"
    by (simp_all add: entry_ok_def)
  have "take 1 t @ drop 1 t = t"
    by (rule append_take_drop_id)
  then have "[(node1, node2)] @ drop 1 t = t"
    by (simp only: tk)
  then have t_eq: "t = (node1, node2) # drop 1 t"
    by simp
  have l: "length t = sizeKmer g" using len top(3) by simp
  have h: "t ! 0 = (node1, node2)" by (subst t_eq) simp
  have "kmer (fst (t ! p)) \<noteq> kmer (fst (t ! (p - 1))) \<and>
        kmer (snd (t ! p)) \<noteq> kmer (snd (t ! (p - 1)))"
    if p: "1 \<le> p \<and> p \<le> sizeKmer g - 1" for p
  proof -
    obtain j where j: "p = Suc j" using p by (cases p) auto
    have "j < length (drop 1 t)" using p j l by simp
    from steps_differ_nth [OF sd this]
    have "kmer (fst (drop 1 t ! j)) \<noteq> kmer (fst (((node1, node2) # drop 1 t) ! j)) \<and>
          kmer (snd (drop 1 t ! j)) \<noteq> kmer (snd (((node1, node2) # drop 1 t) ! j))" .
    moreover have "drop 1 t ! j = t ! p" using j p l by simp
    moreover have "((node1, node2) # drop 1 t) ! j = t ! (p - 1)"
      using t_eq j by simp
    ultimately show ?thesis by simp
  qed
  then show ?thesis using l h e by simp
qed

theorem expand_trace_steps_differ_witness:
  "length trail_snp = sizeKmer graph_snp \<and>
   kmer (fst (trail_snp ! 1)) \<noteq> kmer (fst (trail_snp ! 0)) \<and>
   kmer (snd (trail_snp ! 1)) \<noteq> kmer (snd (trail_snp ! 0)) \<and>
   kmer (fst (trail_snp ! 2)) \<noteq> kmer (fst (trail_snp ! 1)) \<and>
   kmer (snd (trail_snp ! 2)) \<noteq> kmer (snd (trail_snp ! 1))"
proof -
  let ?run = "expand_trace graph_snp flc_zero null_traversal 1 (finder_snp 2)
        (dbg_node ''CAA'') (dbg_node ''CAT'') Node_sentinel Node_sentinel
        [(dbg_node ''CAA'', dbg_node ''CAT'')] []"
  have r: "map_option (map snd \<circ> snd) ?run = Some [trail_snp, trail_snp_back]"
    by code_simp
  then obtain st' lg where run: "?run = Some (st', lg)" and lg: "map snd lg = [trail_snp, trail_snp_back]"
    by auto
  have "trail_snp \<in> set (map snd lg)"
    unfolding lg by simp
  then obtain b where mem: "(b, trail_snp) \<in> set lg"
    by force
  have k: "sizeKmer graph_snp - 1 = 2" by code_simp
  note th = expand_trace_steps_differ [OF run mem]
  from th have l: "length trail_snp = sizeKmer graph_snp"
    by blast
  from th have q: "kmer (fst (trail_snp ! p)) \<noteq> kmer (fst (trail_snp ! (p - 1))) \<and>
                   kmer (snd (trail_snp ! p)) \<noteq> kmer (snd (trail_snp ! (p - 1)))"
    if "1 \<le> p \<and> p \<le> sizeKmer graph_snp - 1" for p
    using that by blast
  show ?thesis
    using l q [of 1] q [of 2] k by simp
qed

text \<open>
  C2, the claim as stated fails: on \<open>graph_snp\<close> (k = 3, policy 2) the search from
  (CAA, CAT) emits two bubbles (four sequences), and at position 1 of the first one the
  node AAT of path 0 and the node ATT of path 1 have the same k-mer: they are reverse
  complements, one vertex of the graph on its two strands.
\<close>

theorem expand_trace_same_kmer_counterexample:
  "map_option (map snd \<circ> snd)
     (expand_trace graph_snp flc_zero null_traversal 1 (finder_snp 2)
        (dbg_node ''CAA'') (dbg_node ''CAT'') Node_sentinel Node_sentinel
        [(dbg_node ''CAA'', dbg_node ''CAT'')] []) = Some [trail_snp, trail_snp_back] \<and>
   map_option (length \<circ> outputBank \<circ> tool \<circ> fst)
     (expand_trace graph_snp flc_zero null_traversal 1 (finder_snp 2)
        (dbg_node ''CAA'') (dbg_node ''CAT'') Node_sentinel Node_sentinel
        [(dbg_node ''CAA'', dbg_node ''CAT'')] []) = Some 4 \<and>
   sizeKmer graph_snp = 3 \<and>
   kmer (fst (trail_snp ! 1)) = kmer (snd (trail_snp ! 1))"
  by code_simp

lemma expand_terminal_no_path:
  "\<not> checkPath g ((bubble st)\<lparr>end_b := (a, c)\<rparr>) \<Longrightarrow>
   expand_terminal g flc tr st a c = Some (st\<lparr>bubble := (bubble st)\<lparr>end_b := (a, c)\<rparr>\<rparr>)"
  by (simp add: expand_terminal_def)

text \<open>
  C5. \<open>checkPath\<close> holds exactly when the rendering of \<open>begin[0]\<close> is strictly below the
  rendering of \<open>reverse(end[0])\<close> in the lexicographic order of their bytes. When it fails
  on a candidate, the terminal step only stores the end nodes: nothing is emitted.
  Below a call \<open>expand(1, ...)\<close> the bank grows by two sequences per call of \<open>finish\<close>, and
  every bubble passed to \<open>finish\<close> satisfies \<open>checkPath\<close>.
\<close>

theorem checkPath_gates_emission:
  "(checkPath g b \<longleftrightarrow>
      toString g (fst (begin_b b)) < toString g (reverse g (fst (end_b b)))) \<and>
   (checkPath g b \<longleftrightarrow>
      (toString g (fst (begin_b b)), toString g (reverse g (fst (end_b b))))
        \<in> lexord {(u, v). (of_char u :: nat) < of_char v}) \<and>
   (\<not> checkPath g ((bubble st)\<lparr>end_b := (a, c)\<rparr>) \<longrightarrow>
      expand_terminal g flc tr st a c = Some (st\<lparr>bubble := (bubble st)\<lparr>end_b := (a, c)\<rparr>\<rparr>)) \<and>
   (expand_trace g flc tr 1 st node1 node2 previousNode1 previousNode2 [(node1, node2)] []
      = Some (st', lg) \<longrightarrow>
      length (outputBank (tool st')) = length (outputBank (tool st)) + 2 * length lg \<and>
      (\<forall>e \<in> set lg. checkPath g (fst e)))"
proof (intro conjI impI)
  show "checkPath g b \<longleftrightarrow>
      toString g (fst (begin_b b)) < toString g (reverse g (fst (end_b b)))"
    by (simp add: checkPath_def)
  show "checkPath g b \<longleftrightarrow>
      (toString g (fst (begin_b b)), toString g (reverse g (fst (end_b b))))
        \<in> lexord {(u, v). (of_char u :: nat) < of_char v}"
    by (simp only: checkPath_def list_less_def less_char_def)
next
  assume "\<not> checkPath g ((bubble st)\<lparr>end_b := (a, c)\<rparr>)"
  then show "expand_terminal g flc tr st a c = Some (st\<lparr>bubble := (bubble st)\<lparr>end_b := (a, c)\<rparr>\<rparr>)"
    by (rule expand_terminal_no_path)
next
  assume r: "expand_trace g flc tr 1 st node1 node2 previousNode1 previousNode2 [(node1, node2)] []
      = Some (st', lg)"
  note top = expand_trace_top [OF r]
  show "length (outputBank (tool st')) = length (outputBank (tool st)) + 2 * length lg"
    by (rule top(1))
  show "\<forall>e \<in> set lg. checkPath g (fst e)"
    using top(2) by (simp add: list_all_iff entry_ok_def)
qed

theorem checkPath_gates_emission_witness:
  "checkPath graph_snp bubble_snp \<and>
   \<not> checkPath graph_snp (bubble_snp\<lparr>begin_b := (dbg_node ''TTG'', dbg_node ''ATG''),
                                      end_b := (dbg_node ''AAC'', dbg_node ''AAG'')\<rparr>) \<and>
   map_option (length \<circ> snd)
     (expand_trace graph_snp flc_zero null_traversal 1 (finder_snp 2)
        (dbg_node ''CAA'') (dbg_node ''CAT'') Node_sentinel Node_sentinel
        [(dbg_node ''CAA'', dbg_node ''CAT'')] []) = Some 2 \<and>
   map_option (length \<circ> outputBank \<circ> tool \<circ> fst)
     (expand_trace graph_snp flc_zero null_traversal 1 (finder_snp 2)
        (dbg_node ''CAA'') (dbg_node ''CAT'') Node_sentinel Node_sentinel
        [(dbg_node ''CAA'', dbg_node ''CAT'')] []) = Some 4"
proof -
  let ?run = "expand_trace graph_snp flc_zero null_traversal 1 (finder_snp 2)
        (dbg_node ''CAA'') (dbg_node ''CAT'') Node_sentinel Node_sentinel
        [(dbg_node ''CAA'', dbg_node ''CAT'')] []"
  let ?rev = "bubble_snp\<lparr>begin_b := (dbg_node ''TTG'', dbg_node ''ATG''),
                         end_b := (dbg_node ''AAC'', dbg_node ''AAG'')\<rparr>"
  have s1: "toString graph_snp (fst (begin_b bubble_snp))
              < toString graph_snp (reverse graph_snp (fst (end_b bubble_snp)))"
    by code_simp
  have s2: "\<not> toString graph_snp (fst (begin_b ?rev))
              < toString graph_snp (reverse graph_snp (fst (end_b ?rev)))"
    by code_simp
  have n: "map_option (length \<circ> snd) ?run = Some 2"
    by code_simp
  then obtain st' lg where run: "?run = Some (st', lg)" and lg: "length lg = 2"
    by auto
  have b0: "length (outputBank (tool (finder_snp 2))) = 0"
    by code_simp
  have "length (outputBank (tool st')) = 4"
    using checkPath_gates_emission [where g = graph_snp and st = "finder_snp 2" and flc = flc_zero
            and tr = null_traversal and ?node1.0 = "dbg_node ''CAA''" and ?node2.0 = "dbg_node ''CAT''"
            and ?previousNode1.0 = Node_sentinel and ?previousNode2.0 = Node_sentinel
            and st' = st' and lg = lg]
          run lg b0
    by simp
  then show ?thesis
    using s1 s2 n run
      checkPath_gates_emission [where g = graph_snp and b = bubble_snp, THEN conjunct1]
      checkPath_gates_emission [where g = graph_snp and b = ?rev, THEN conjunct1]
    by simp
qed

end
